theory Spec2Isabelle
  imports Main "HOL-Library.Word" "HOL-Library.AList" "HOL-Library.Sublist"
begin

unbundle bit_operations_syntax

section \<open>JavaScript strings\<close>

text \<open>
  A JavaScript string is a sequence of UTF-16 code units; \<open>length\<close>, \<open>substring\<close>,
  \<open>startsWith\<close>, \<open>split\<close>, \<open>trim\<close> and the regular expressions of the sources (none
  has the \<open>u\<close> flag) all work on code units. The ASCII literals of the sources are
  written \<open>js ''...''\<close>.
\<close>

type_synonym code_unit = "16 word"
type_synonym jsstring = "code_unit list"

definition js :: "string \<Rightarrow> jsstring" where
  "js s = map (\<lambda>c. of_nat (of_char c)) s"

text \<open>
  ECMAScript's WhiteSpace and LineTerminator code points: what \<open>String.prototype.trim\<close>
  strips, what \<open>\s\<close> matches in a regular expression and what \<open>parseInt\<close> skips.
\<close>

definition is_line_terminator :: "code_unit \<Rightarrow> bool" where
  "is_line_terminator c \<longleftrightarrow> c = 0x0A \<or> c = 0x0D \<or> c = 0x2028 \<or> c = 0x2029"

definition is_white_space :: "code_unit \<Rightarrow> bool" where
  "is_white_space c \<longleftrightarrow>
     c = 0x09 \<or> c = 0x0B \<or> c = 0x0C \<or> c = 0x20 \<or> c = 0xA0 \<or> c = 0x1680 \<or>
     (0x2000 \<le> c \<and> c \<le> 0x200A) \<or> c = 0x202F \<or> c = 0x205F \<or> c = 0x3000 \<or>
     c = 0xFEFF \<or> is_line_terminator c"

definition trim :: "jsstring \<Rightarrow> jsstring" where
  "trim s = rev (dropWhile is_white_space (rev (dropWhile is_white_space s)))"

definition startsWith :: "jsstring \<Rightarrow> jsstring \<Rightarrow> bool" where
  "startsWith s p \<longleftrightarrow> take (length p) s = p"

section \<open>Numbers in identifiers\<close>

text \<open>
  \<open>Date.now()\<close> is the number of milliseconds since the epoch, a non-negative integer
  (below \<open>2^53\<close>, where JavaScript numbers are exact); the template literal
  \<open>chat_${Date.now()}\<close> writes it in decimal without leading zeros.
\<close>

fun number_to_string :: "nat \<Rightarrow> jsstring" where
  "number_to_string n =
     (if n < 10 then [of_nat (48 + n)]
      else number_to_string (n div 10) @ [of_nat (48 + n mod 10)])"

declare number_to_string.simps [simp del]

text \<open>
  \<open>parseInt(string)\<close> without a radix: leading white space is skipped, a sign is read,
  a prefix \<open>0x\<close> or \<open>0X\<close> selects radix 16, and the longest prefix of digits is the
  value; \<open>NaN\<close> (here \<open>None\<close>) when there is no digit. The argument \<open>undefined\<close>
  (here \<open>None\<close>) is read as the string \<open>undefined\<close>, which has no digit.
\<close>

definition digit_value :: "code_unit \<Rightarrow> nat option" where
  "digit_value c =
     (if 0x30 \<le> c \<and> c \<le> 0x39 then Some (unat c - 48)
      else if 0x61 \<le> c \<and> c \<le> 0x7A then Some (unat c - 87)
      else if 0x41 \<le> c \<and> c \<le> 0x5A then Some (unat c - 55)
      else None)"

definition radix_digit :: "nat \<Rightarrow> code_unit \<Rightarrow> bool" where
  "radix_digit R c = (case digit_value c of Some d \<Rightarrow> d < R | None \<Rightarrow> False)"

definition digits_value :: "nat \<Rightarrow> jsstring \<Rightarrow> nat" where
  "digits_value R ds = foldl (\<lambda>a c. R * a + the (digit_value c)) 0 ds"

definition parseInt :: "jsstring option \<Rightarrow> int option" where
  "parseInt arg =
     (case arg of
        None \<Rightarrow> None
      | Some s \<Rightarrow>
          (let t = dropWhile is_white_space s;
               negative = (t \<noteq> [] \<and> hd t = 0x2D);
               t1 = (if t \<noteq> [] \<and> (hd t = 0x2B \<or> hd t = 0x2D) then tl t else t);
               hex = (startsWith t1 (js ''0x'') \<or> startsWith t1 (js ''0X''));
               R = (if hex then 16 else 10);
               t2 = (if hex then drop 2 t1 else t1);
               ds = takeWhile (radix_digit R) t2
           in if ds = [] then None
              else Some ((if negative then - 1 else 1) * int (digits_value R ds))))"

text \<open>\<open>a.split('_')[1]\<close>: the text between the first and the second underscore,
  \<open>undefined\<close> when the string has no underscore.\<close>

definition split_underscore_1 :: "jsstring \<Rightarrow> jsstring option" where
  "split_underscore_1 s =
     (if 0x5F \<in> set s
      then Some (takeWhile (\<lambda>c. c \<noteq> 0x5F) (tl (dropWhile (\<lambda>c. c \<noteq> 0x5F) s)))
      else None)"

definition timestamp :: "jsstring \<Rightarrow> int option" where
  "timestamp a = parseInt (split_underscore_1 a)"

text \<open>
  The comparator \<open>(a, b) => parseInt(b.split('_')[1]) - parseInt(a.split('_')[1])\<close>.
  A \<open>NaN\<close> result counts as \<open>+0\<close> in \<open>Array.prototype.sort\<close>.
\<close>

definition by_timestamp_desc :: "jsstring \<Rightarrow> jsstring \<Rightarrow> int" where
  "by_timestamp_desc a b =
     (case (timestamp b, timestamp a) of
        (Some tb, Some ta) \<Rightarrow> tb - ta
      | _ \<Rightarrow> 0)"

text \<open>
  \<open>Array.prototype.sort\<close> is stable; with a consistent comparator its result is the
  one stable insertion sort gives. (With an inconsistent comparator, which takes
  identifiers without a number, ECMAScript leaves the order to the implementation.)
\<close>

fun insert_sorted :: "('a \<Rightarrow> 'a \<Rightarrow> int) \<Rightarrow> 'a \<Rightarrow> 'a list \<Rightarrow> 'a list" where
  "insert_sorted cmp x [] = [x]"
| "insert_sorted cmp x (y # ys) =
     (if cmp x y \<le> 0 then x # y # ys else y # insert_sorted cmp x ys)"

definition array_sort :: "('a \<Rightarrow> 'a \<Rightarrow> int) \<Rightarrow> 'a list \<Rightarrow> 'a list" where
  "array_sort cmp xs = foldr (insert_sorted cmp) xs []"

section \<open>StateManager\<close>

text \<open>
  The state object of \<open>StateManager\<close>. \<open>chats\<close> is a JavaScript object used as a
  dictionary: an association list in the order of \<open>Object.keys\<close>, which is insertion
  order for the keys this program creates (\<open>chat_...\<close>, never an array index).
  Assigning to an existing key keeps its place (\<open>AList.update\<close>), \<open>delete\<close> removes
  it (\<open>AList.delete\<close>). \<open>localStorage\<close> holds what \<open>saveState\<close> wrote last.
\<close>

record message =
  role :: jsstring
  content :: jsstring

record chat =
  chat_id :: jsstring
  title :: jsstring
  messages :: "message list"
  systemPrompt :: jsstring

record settings =
  fontSize :: int
  maxTokens :: int
  showThoughts :: bool

record settings_patch =
  new_fontSize :: "int option"
  new_maxTokens :: "int option"
  new_showThoughts :: "bool option"

record store =
  chats :: "(jsstring \<times> chat) list"
  activeChatId :: "jsstring option"
  settings :: settings

record state_manager =
  state :: store
  localStorage :: "store option"

definition defaultState :: store where
  "defaultState =
     \<lparr>chats = [], activeChatId = None,
      settings = \<lparr>fontSize = 3, maxTokens = 2048, showThoughts = False\<rparr>\<rparr>"

text \<open>The constructor on an empty \<open>localStorage\<close>.\<close>

definition new_StateManager :: state_manager where
  "new_StateManager = \<lparr>state = defaultState, localStorage = None\<rparr>"

definition saveState :: "state_manager \<Rightarrow> state_manager" where
  "saveState sm = sm\<lparr>localStorage := Some (state sm)\<rparr>"

text \<open>A property key: \<open>chats[null]\<close> reads the property named \<open>null\<close>.\<close>

definition property_key :: "jsstring option \<Rightarrow> jsstring" where
  "property_key k = (case k of None \<Rightarrow> js ''null'' | Some s \<Rightarrow> s)"

definition getActiveChat :: "state_manager \<Rightarrow> chat option" where
  "getActiveChat sm = map_of (chats (state sm)) (property_key (activeChatId (state sm)))"

definition getActiveChatId :: "state_manager \<Rightarrow> jsstring option" where
  "getActiveChatId sm = activeChatId (state sm)"

definition set_active_chat_object :: "chat \<Rightarrow> state_manager \<Rightarrow> state_manager" where
  "set_active_chat_object c sm =
     sm\<lparr>state := (state sm)\<lparr>chats :=
       AList.update (property_key (activeChatId (state sm))) c (chats (state sm))\<rparr>\<rparr>"

text \<open>\<open>addMessage\<close> returns \<open>undefined\<close> (\<open>None\<close>) or the title of the active chat.\<close>

definition addMessage ::
  "jsstring \<Rightarrow> jsstring \<Rightarrow> state_manager \<Rightarrow> jsstring option \<times> state_manager" where
  "addMessage rl txt sm =
     (case getActiveChat sm of
        None \<Rightarrow> (None, sm)
      | Some activeChat \<Rightarrow>
          (let pushed = activeChat\<lparr>messages := messages activeChat @ [\<lparr>role = rl, content = txt\<rparr>]\<rparr>;
               titled =
                 (if length (messages pushed) = 1 \<and> rl = js ''user''
                  then pushed\<lparr>title := take 30 txt @ (if length txt > 30 then js ''...'' else [])\<rparr>
                  else pushed)
           in (Some (title titled), saveState (set_active_chat_object titled sm))))"

text \<open>\<open>deleteMessage\<close>: \<open>messages[index]\<close> is defined exactly for an index in range.\<close>

definition deleteMessage :: "int \<Rightarrow> state_manager \<Rightarrow> state_manager" where
  "deleteMessage index sm =
     (case getActiveChat sm of
        None \<Rightarrow> sm
      | Some activeChat \<Rightarrow>
          if 0 \<le> index \<and> index < int (length (messages activeChat))
          then saveState (set_active_chat_object
                 (activeChat\<lparr>messages := take (nat index) (messages activeChat)
                                           @ drop (Suc (nat index)) (messages activeChat)\<rparr>) sm)
          else sm)"

definition setActiveChat :: "jsstring option \<Rightarrow> state_manager \<Rightarrow> state_manager" where
  "setActiveChat chatId sm =
     saveState (sm\<lparr>state := (state sm)\<lparr>activeChatId :=
       (if chatId = None \<or> chatId = Some [] \<or> map_of (chats (state sm)) (property_key chatId) = None
        then (let chatIds = map fst (chats (state sm))
              in if length chatIds > 0 then Some (hd (array_sort by_timestamp_desc chatIds)) else None)
        else chatId)\<rparr>\<rparr>)"

text \<open>\<open>createNewChat\<close> reads the clock (\<open>Date.now()\<close>, the argument \<open>now\<close>).\<close>

definition createNewChat :: "nat \<Rightarrow> state_manager \<Rightarrow> jsstring \<times> state_manager" where
  "createNewChat now sm =
     (let newChatId = js ''chat_'' @ number_to_string now;
          sm1 = sm\<lparr>state := (state sm)\<lparr>chats :=
                  AList.update newChatId
                    \<lparr>chat_id = newChatId, title = js ''Nuevo Chat'', messages = [],
                     systemPrompt = js ''Eres un asistente servicial y profesional.''\<rparr>
                    (chats (state sm))\<rparr>\<rparr>
      in (newChatId, setActiveChat (Some newChatId) sm1))"

definition deleteChat :: "jsstring \<Rightarrow> nat \<Rightarrow> state_manager \<Rightarrow> state_manager" where
  "deleteChat chatIdToDelete now sm =
     (let wasActive = (activeChatId (state sm) = Some chatIdToDelete);
          sm1 = sm\<lparr>state := (state sm)\<lparr>chats := AList.delete chatIdToDelete (chats (state sm))\<rparr>\<rparr>;
          sm2 =
            (if wasActive
             then (let remainingChatIds = map fst (chats (state sm1))
                   in if length remainingChatIds > 0
                      then setActiveChat (Some (hd (array_sort by_timestamp_desc remainingChatIds))) sm1
                      else snd (createNewChat now sm1))
             else sm1)
      in saveState sm2)"

definition updateSystemPrompt :: "jsstring \<Rightarrow> state_manager \<Rightarrow> state_manager" where
  "updateSystemPrompt prompt sm =
     (case getActiveChat sm of
        None \<Rightarrow> sm
      | Some activeChat \<Rightarrow> saveState (set_active_chat_object (activeChat\<lparr>systemPrompt := prompt\<rparr>) sm))"

definition updateSettings :: "settings_patch \<Rightarrow> state_manager \<Rightarrow> state_manager" where
  "updateSettings newSettings sm =
     saveState (sm\<lparr>state := (state sm)\<lparr>settings :=
       \<lparr>fontSize = (case new_fontSize newSettings of None \<Rightarrow> fontSize (settings (state sm)) | Some v \<Rightarrow> v),
        maxTokens = (case new_maxTokens newSettings of None \<Rightarrow> maxTokens (settings (state sm)) | Some v \<Rightarrow> v),
        showThoughts = (case new_showThoughts newSettings of None \<Rightarrow> showThoughts (settings (state sm)) | Some v \<Rightarrow> v)\<rparr>\<rparr>\<rparr>)"

text \<open>The store operations as commands, and the stores they reach from a fresh one.\<close>

datatype store_op =
    CreateNewChat nat
  | DeleteChat jsstring nat
  | SetActiveChat "jsstring option"
  | AddMessage jsstring jsstring
  | DeleteMessage int
  | UpdateSystemPrompt jsstring
  | UpdateSettings settings_patch

fun apply_op :: "store_op \<Rightarrow> state_manager \<Rightarrow> state_manager" where
  "apply_op (CreateNewChat now) sm = snd (createNewChat now sm)"
| "apply_op (DeleteChat c now) sm = deleteChat c now sm"
| "apply_op (SetActiveChat c) sm = setActiveChat c sm"
| "apply_op (AddMessage rl txt) sm = snd (addMessage rl txt sm)"
| "apply_op (DeleteMessage i) sm = deleteMessage i sm"
| "apply_op (UpdateSystemPrompt p) sm = updateSystemPrompt p sm"
| "apply_op (UpdateSettings p) sm = updateSettings p sm"

definition run_ops :: "store_op list \<Rightarrow> state_manager \<Rightarrow> state_manager" where
  "run_ops ops sm = foldl (\<lambda>s c. apply_op c s) sm ops"

text \<open>
  Invariants of the store: the active identifier names a chat whenever there is one,
  and every identifier was made by \<open>createNewChat\<close> (\<open>chat_\<close> and a decimal number).
\<close>

definition is_decimal :: "jsstring \<Rightarrow> bool" where
  "is_decimal s \<longleftrightarrow> s \<noteq> [] \<and> (\<forall>c\<in>set s. \<exists>d<10. c = of_nat (48 + d))"





section \<open>The stream decoder\<close>

subsection \<open>TextDecoder\<close>

text \<open>
  \<open>new TextDecoder()\<close> is the UTF-8 decoder of the Encoding Standard, not fatal, with
  the byte order mark stripped. \<open>decode(value, {stream: true})\<close> runs the decoder's
  handler on every byte of the chunk and keeps the decoder's state for the next call;
  it never sees the end of the queue, so an incomplete sequence stays buffered. An
  invalid byte gives \<open>U+FFFD\<close>; a byte that cannot continue a sequence is read again
  as the start of a new one. The code points are written as UTF-16 code units.
\<close>

type_synonym byte = "8 word"

record TextDecoder =
  utf8_code_point :: nat
  utf8_bytes_seen :: nat
  utf8_bytes_needed :: nat
  utf8_lower_boundary :: byte
  utf8_upper_boundary :: byte
  BOM_seen :: bool

definition new_TextDecoder :: TextDecoder where
  "new_TextDecoder =
     \<lparr>utf8_code_point = 0, utf8_bytes_seen = 0, utf8_bytes_needed = 0,
      utf8_lower_boundary = 0x80, utf8_upper_boundary = 0xBF, BOM_seen = False\<rparr>"

text \<open>The handler when no sequence is open (\<open>bytes needed\<close> is 0).\<close>

definition utf8_lead :: "TextDecoder \<Rightarrow> byte \<Rightarrow> nat list \<times> TextDecoder" where
  "utf8_lead d b =
     (if b \<le> 0x7F then ([unat b], d)
      else if 0xC2 \<le> b \<and> b \<le> 0xDF
        then ([], d\<lparr>utf8_bytes_needed := 1, utf8_code_point := unat (b AND 0x1F)\<rparr>)
      else if 0xE0 \<le> b \<and> b \<le> 0xEF
        then ([], d\<lparr>utf8_lower_boundary := (if b = 0xE0 then 0xA0 else utf8_lower_boundary d),
                     utf8_upper_boundary := (if b = 0xED then 0x9F else utf8_upper_boundary d),
                     utf8_bytes_needed := 2, utf8_code_point := unat (b AND 0xF)\<rparr>)
      else if 0xF0 \<le> b \<and> b \<le> 0xF4
        then ([], d\<lparr>utf8_lower_boundary := (if b = 0xF0 then 0x90 else utf8_lower_boundary d),
                     utf8_upper_boundary := (if b = 0xF4 then 0x8F else utf8_upper_boundary d),
                     utf8_bytes_needed := 3, utf8_code_point := unat (b AND 0x7)\<rparr>)
      else ([0xFFFD], d))"

definition utf8_handler :: "TextDecoder \<Rightarrow> byte \<Rightarrow> nat list \<times> TextDecoder" where
  "utf8_handler d b =
     (if utf8_bytes_needed d = 0 then utf8_lead d b
      else if \<not> (utf8_lower_boundary d \<le> b \<and> b \<le> utf8_upper_boundary d)
        then (let (out, d') =
                    utf8_lead (d\<lparr>utf8_code_point := 0, utf8_bytes_needed := 0, utf8_bytes_seen := 0,
                                  utf8_lower_boundary := 0x80, utf8_upper_boundary := 0xBF\<rparr>) b
              in (0xFFFD # out, d'))
      else (let d1 = d\<lparr>utf8_lower_boundary := 0x80, utf8_upper_boundary := 0xBF,
                         utf8_code_point := push_bit 6 (utf8_code_point d) OR unat (b AND 0x3F),
                         utf8_bytes_seen := utf8_bytes_seen d + 1\<rparr>
            in if utf8_bytes_seen d1 \<noteq> utf8_bytes_needed d1 then ([], d1)
               else ([utf8_code_point d1],
                     d1\<lparr>utf8_code_point := 0, utf8_bytes_needed := 0, utf8_bytes_seen := 0\<rparr>)))"

definition utf16_units :: "nat \<Rightarrow> jsstring" where
  "utf16_units cp =
     (if cp < 0x10000 then [of_nat cp]
      else [of_nat (0xD800 + (cp - 0x10000) div 0x400), of_nat (0xDC00 + (cp - 0x10000) mod 0x400)])"

text \<open>Serialising the output: the first code point is dropped when it is \<open>U+FEFF\<close>.\<close>

fun serialize :: "TextDecoder \<Rightarrow> nat list \<Rightarrow> jsstring \<times> TextDecoder" where
  "serialize d [] = ([], d)"
| "serialize d (cp # cps) =
     (let (s, d') = serialize (d\<lparr>BOM_seen := True\<rparr>) cps
      in (if \<not> BOM_seen d \<and> cp = 0xFEFF then s else utf16_units cp @ s, d'))"

fun TextDecoder_decode :: "TextDecoder \<Rightarrow> byte list \<Rightarrow> jsstring \<times> TextDecoder" where
  "TextDecoder_decode d [] = ([], d)"
| "TextDecoder_decode d (b # bs) =
     (let (cps, d1) = utf8_handler d b;
          (s1, d2) = serialize d1 cps;
          (s2, d3) = TextDecoder_decode d2 bs
      in (s1 @ s2, d3))"

subsection \<open>Splitting a chunk into segments\<close>

text \<open>\<open>chunk.split('\n\n')\<close>: the pieces between successive occurrences of two line
  feeds, found from left to right.\<close>

fun split_nn :: "jsstring \<Rightarrow> jsstring \<Rightarrow> jsstring list" where
  "split_nn piece [] = [piece]"
| "split_nn piece [c] = [piece @ [c]]"
| "split_nn piece (c1 # c2 # cs) =
     (if c1 = 0x0A \<and> c2 = 0x0A then piece # split_nn [] cs
      else split_nn (piece @ [c1]) (c2 # cs))"

definition split_events :: "jsstring \<Rightarrow> jsstring list" where
  "split_events chunk = split_nn [] chunk"

subsection \<open>JSON.parse\<close>

text \<open>
  The JSON grammar of ECMAScript: white space is tab, line feed, carriage return and
  space; a string has no raw control character and the escapes
  \<open>\" \\ \/ \b \f \n \r \t \uXXXX\<close>; a number is
  \<open>-?(0|[1-9][0-9]*)(\.[0-9]+)?([eE][+-]?[0-9]+)?\<close>. A number keeps its literal: its
  value is a floating-point number.
\<close>

datatype json =
    JNull
  | JBool bool
  | JNumber jsstring
  | JString jsstring
  | JArray "json list"
  | JObject "(jsstring \<times> json) list"

datatype json_token =
    LBrace | RBrace | LBracket | RBracket | Colon | Comma
  | TString jsstring | TNumber jsstring | TTrue | TFalse | TNull

definition is_json_white_space :: "code_unit \<Rightarrow> bool" where
  "is_json_white_space c \<longleftrightarrow> c = 0x09 \<or> c = 0x0A \<or> c = 0x0D \<or> c = 0x20"

definition is_decimal_digit :: "code_unit \<Rightarrow> bool" where
  "is_decimal_digit c \<longleftrightarrow> 0x30 \<le> c \<and> c \<le> 0x39"

definition hex_digit :: "code_unit \<Rightarrow> nat option" where
  "hex_digit c = (case digit_value c of Some d \<Rightarrow> if d < 16 then Some d else None | None \<Rightarrow> None)"

definition simple_escape :: "code_unit \<Rightarrow> code_unit option" where
  "simple_escape e =
     (if e = 0x22 then Some 0x22 else if e = 0x5C then Some 0x5C else if e = 0x2F then Some 0x2F
      else if e = 0x62 then Some 0x08 else if e = 0x66 then Some 0x0C
      else if e = 0x6E then Some 0x0A else if e = 0x72 then Some 0x0D
      else if e = 0x74 then Some 0x09 else None)"

definition cons_unit :: "code_unit \<Rightarrow> (jsstring \<times> jsstring) option \<Rightarrow> (jsstring \<times> jsstring) option" where
  "cons_unit c r = (case r of None \<Rightarrow> None | Some (v, rest) \<Rightarrow> Some (c # v, rest))"

text \<open>A string after its opening quote: its value and what follows the closing quote.\<close>

fun hex4 :: "jsstring \<Rightarrow> code_unit option" where
  "hex4 [h1, h2, h3, h4] =
     (case (hex_digit h1, hex_digit h2, hex_digit h3, hex_digit h4) of
        (Some a, Some b, Some c, Some d) \<Rightarrow> Some (of_nat (((a * 16 + b) * 16 + c) * 16 + d))
      | _ \<Rightarrow> None)"
| "hex4 _ = None"

fun lex_string :: "jsstring \<Rightarrow> (jsstring \<times> jsstring) option" where
  "lex_string [] = None"
| "lex_string [c] = (if c = 0x22 then Some ([], []) else None)"
| "lex_string (c # e # cs) =
     (if c = 0x22 then Some ([], e # cs)
      else if c = 0x5C then
        (if e = 0x75 then
           (case hex4 (take 4 cs) of
              Some u \<Rightarrow> cons_unit u (lex_string (drop 4 cs))
            | None \<Rightarrow> None)
         else (case simple_escape e of
                 Some x \<Rightarrow> cons_unit x (lex_string cs)
               | None \<Rightarrow> None))
      else if c < 0x20 then None
      else cons_unit c (lex_string (e # cs)))"

text \<open>A number: its literal and what follows it.\<close>

definition lex_digits :: "jsstring \<Rightarrow> jsstring option" where
  "lex_digits s = (if takeWhile is_decimal_digit s = [] then None else Some (dropWhile is_decimal_digit s))"

definition lex_int :: "jsstring \<Rightarrow> jsstring option" where
  "lex_int s =
     (case s of
        [] \<Rightarrow> None
      | c # cs \<Rightarrow> if c = 0x30 then Some cs else lex_digits s)"

definition lex_frac :: "jsstring \<Rightarrow> jsstring option" where
  "lex_frac s =
     (case s of
        [] \<Rightarrow> Some s
      | c # cs \<Rightarrow> if c = 0x2E then lex_digits cs else Some s)"

definition lex_exp :: "jsstring \<Rightarrow> jsstring option" where
  "lex_exp s =
     (case s of
        [] \<Rightarrow> Some s
      | c # cs \<Rightarrow>
          if c = 0x65 \<or> c = 0x45 then
            (case cs of
               [] \<Rightarrow> None
             | g # r \<Rightarrow> if g = 0x2B \<or> g = 0x2D then lex_digits r else lex_digits cs)
          else Some s)"

definition lex_number :: "jsstring \<Rightarrow> (jsstring \<times> jsstring) option" where
  "lex_number s =
     (case lex_int (case s of [] \<Rightarrow> [] | c # cs \<Rightarrow> if c = 0x2D then cs else s) of
        None \<Rightarrow> None
      | Some s2 \<Rightarrow>
          (case lex_frac s2 of
             None \<Rightarrow> None
           | Some s3 \<Rightarrow>
               (case lex_exp s3 of
                  None \<Rightarrow> None
                | Some s5 \<Rightarrow> Some (take (length s - length s5) s, s5))))"

lemma cons_unit_Some: "cons_unit c r = Some (v, rest) \<Longrightarrow> \<exists>v'. r = Some (v', rest)"
  by (auto simp: cons_unit_def split: option.splits)

lemma lex_string_shorter: "lex_string s = Some (v, rest) \<Longrightarrow> length rest \<le> length s"
proof (induction s arbitrary: v rest rule: lex_string.induct)
  case 1
  then show ?case by simp
next
  case (2 c)
  then show ?case by (simp split: if_splits)
next
  case (3 c e cs)
  show ?case
  proof (cases "c = 0x22")
    case True
    with 3 show ?thesis by simp
  next
    case q: False
    show ?thesis
    proof (cases "c = 0x5C")
      case b: True
      show ?thesis
      proof (cases "e = 0x75")
        case True
        from "3.prems" q b True obtain u where u: "hex4 (take 4 cs) = Some u"
          and r: "cons_unit u (lex_string (drop 4 cs)) = Some (v, rest)"
          by (auto split: option.splits)
        from cons_unit_Some[OF r] obtain v' where "lex_string (drop 4 cs) = Some (v', rest)" by blast
        from "3.IH"(1)[OF q b True u this] show ?thesis by simp
      next
        case False
        from "3.prems" q b False obtain x where x: "simple_escape e = Some x"
          and r: "cons_unit x (lex_string cs) = Some (v, rest)"
          by (auto split: option.splits)
        from cons_unit_Some[OF r] obtain v' where "lex_string cs = Some (v', rest)" by blast
        from "3.IH"(2)[OF q b False x this] show ?thesis by simp
      qed
    next
      case nb: False
      from "3.prems" q nb have c20: "\<not> c < 0x20" and r: "cons_unit c (lex_string (e # cs)) = Some (v, rest)"
        by (auto split: if_splits)
      from cons_unit_Some[OF r] obtain v' where "lex_string (e # cs) = Some (v', rest)" by blast
      from "3.IH"(3)[OF q nb c20 this] show ?thesis by simp
    qed
  qed
qed

lemma lex_digits_shorter: "lex_digits s = Some r \<Longrightarrow> length r < length s"
  by (cases s) (auto simp: lex_digits_def le_imp_less_Suc length_dropWhile_le split: if_splits)

lemma lex_int_shorter: "lex_int s = Some r \<Longrightarrow> length r < length s"
  by (cases s) (auto simp: lex_int_def dest: lex_digits_shorter split: if_splits)

lemma lex_frac_shorter: "lex_frac s = Some r \<Longrightarrow> length r \<le> length s"
  by (cases s) (auto simp: lex_frac_def dest: lex_digits_shorter split: if_splits)

lemma lex_exp_shorter: "lex_exp s = Some r \<Longrightarrow> length r \<le> length s"
  by (cases s; cases "tl s")
     (auto simp: lex_exp_def dest!: lex_digits_shorter split: if_splits)

lemma lex_number_shorter: "lex_number s = Some (lx, rest) \<Longrightarrow> length rest < length s"
proof -
  assume "lex_number s = Some (lx, rest)"
  then obtain s2 s3 where
    a: "lex_int (case s of [] \<Rightarrow> [] | c # cs \<Rightarrow> if c = 0x2D then cs else s) = Some s2"
    and b: "lex_frac s2 = Some s3" and c: "lex_exp s3 = Some rest"
    by (auto simp: lex_number_def split: option.splits)
  have "length (case s of [] \<Rightarrow> [] | c # cs \<Rightarrow> if c = 0x2D then cs else s) \<le> length s"
    by (cases s) auto
  with lex_int_shorter[OF a] lex_frac_shorter[OF b] lex_exp_shorter[OF c] show ?thesis
    by linarith
qed

function json_lex :: "jsstring \<Rightarrow> json_token list option" where
  "json_lex [] = Some []"
| "json_lex (c # cs) =
     (if is_json_white_space c then json_lex cs
      else if c = 0x7B then map_option (Cons LBrace) (json_lex cs)
      else if c = 0x7D then map_option (Cons RBrace) (json_lex cs)
      else if c = 0x5B then map_option (Cons LBracket) (json_lex cs)
      else if c = 0x5D then map_option (Cons RBracket) (json_lex cs)
      else if c = 0x3A then map_option (Cons Colon) (json_lex cs)
      else if c = 0x2C then map_option (Cons Comma) (json_lex cs)
      else if c = 0x22 then
        (case lex_string cs of
           None \<Rightarrow> None
         | Some (v, rest) \<Rightarrow> map_option (Cons (TString v)) (json_lex rest))
      else if c = 0x2D \<or> is_decimal_digit c then
        (case lex_number (c # cs) of
           None \<Rightarrow> None
         | Some (lx, rest) \<Rightarrow> map_option (Cons (TNumber lx)) (json_lex rest))
      else if startsWith (c # cs) (js ''true'') then map_option (Cons TTrue) (json_lex (drop 3 cs))
      else if startsWith (c # cs) (js ''false'') then map_option (Cons TFalse) (json_lex (drop 4 cs))
      else if startsWith (c # cs) (js ''null'') then map_option (Cons TNull) (json_lex (drop 3 cs))
      else None)"
  by pat_completeness auto
termination
proof (relation "measure length")
  show "wf (measure length)" by simp
qed (auto dest: lex_string_shorter lex_number_shorter simp: le_imp_less_Suc)

text \<open>
  The parser is a stack machine over the tokens: a frame for every open array or
  object, and what the grammar allows next.
\<close>

datatype json_frame =
    InArray "json list"
  | InObject "(jsstring \<times> json) list" "jsstring option"

datatype json_expect =
    ExpectValue
  | ExpectValueOrClose
  | ExpectKeyOrClose
  | ExpectKey
  | ExpectColon
  | ExpectCommaOrClose
  | Finished json

fun json_reduce :: "json \<Rightarrow> json_frame list \<Rightarrow> (json_frame list \<times> json_expect) option" where
  "json_reduce v [] = Some ([], Finished v)"
| "json_reduce v (InArray es # st) = Some (InArray (v # es) # st, ExpectCommaOrClose)"
| "json_reduce v (InObject ms (Some k) # st) = Some (InObject ((k, v) # ms) None # st, ExpectCommaOrClose)"
| "json_reduce v (InObject ms None # st) = None"

definition scalar_token :: "json_token \<Rightarrow> json option" where
  "scalar_token t =
     (case t of
        TString s \<Rightarrow> Some (JString s)
      | TNumber lx \<Rightarrow> Some (JNumber lx)
      | TTrue \<Rightarrow> Some (JBool True)
      | TFalse \<Rightarrow> Some (JBool False)
      | TNull \<Rightarrow> Some JNull
      | _ \<Rightarrow> None)"

definition json_open :: "json_token \<Rightarrow> json_frame list \<Rightarrow> (json_frame list \<times> json_expect) option" where
  "json_open t st =
     (if t = LBracket then Some (InArray [] # st, ExpectValueOrClose)
      else if t = LBrace then Some (InObject [] None # st, ExpectKeyOrClose)
      else (case scalar_token t of Some v \<Rightarrow> json_reduce v st | None \<Rightarrow> None))"

definition json_key :: "json_token \<Rightarrow> json_frame list \<Rightarrow> (json_frame list \<times> json_expect) option" where
  "json_key t st =
     (case (t, st) of
        (TString k, InObject ms None # st') \<Rightarrow> Some (InObject ms (Some k) # st', ExpectColon)
      | _ \<Rightarrow> None)"

definition json_close :: "json_token \<Rightarrow> json_frame list \<Rightarrow> (json_frame list \<times> json_expect) option" where
  "json_close t st =
     (case (t, st) of
        (RBracket, InArray es # st') \<Rightarrow> json_reduce (JArray (rev es)) st'
      | (RBrace, InObject ms None # st') \<Rightarrow> json_reduce (JObject (rev ms)) st'
      | _ \<Rightarrow> None)"

fun json_step :: "json_token \<Rightarrow> json_frame list \<times> json_expect \<Rightarrow> (json_frame list \<times> json_expect) option" where
  "json_step t (st, ExpectValue) = json_open t st"
| "json_step t (st, ExpectValueOrClose) = (if t = RBracket then json_close t st else json_open t st)"
| "json_step t (st, ExpectKeyOrClose) = (if t = RBrace then json_close t st else json_key t st)"
| "json_step t (st, ExpectKey) = json_key t st"
| "json_step t (st, ExpectColon) = (if t = Colon then Some (st, ExpectValue) else None)"
| "json_step t (st, ExpectCommaOrClose) =
     (if t = Comma then
        (case st of
           InArray es # st' \<Rightarrow> Some (st, ExpectValue)
         | InObject ms None # st' \<Rightarrow> Some (st, ExpectKey)
         | _ \<Rightarrow> None)
      else json_close t st)"
| "json_step t (st, Finished v) = None"

fun json_run :: "json_token list \<Rightarrow> json_frame list \<times> json_expect \<Rightarrow> json option" where
  "json_run [] (st, e) = (case e of Finished v \<Rightarrow> Some v | _ \<Rightarrow> None)"
| "json_run (t # ts) s = (case json_step t s of None \<Rightarrow> None | Some s' \<Rightarrow> json_run ts s')"

text \<open>\<open>JSON.parse(data)\<close>; \<open>None\<close> is the \<open>SyntaxError\<close>.\<close>

definition JSON_parse :: "jsstring \<Rightarrow> json option" where
  "JSON_parse s = (case json_lex s of None \<Rightarrow> None | Some ts \<Rightarrow> json_run ts ([], ExpectValue))"

subsection \<open>Reading the content of a parsed event\<close>

text \<open>
  \<open>undefined\<close> is \<open>None\<close>. A property \<open>choices\<close>, \<open>delta\<close> or \<open>content\<close> is
  defined only on an object that has it as a key (the last one when the JSON text
  repeats it); \<open>[0]\<close> is the first element of an array, the property \<open>0\<close> of an
  object, the first code unit of a string.
\<close>

definition get_property :: "json \<Rightarrow> jsstring \<Rightarrow> json option" where
  "get_property v k = (case v of JObject ms \<Rightarrow> map_of (rev ms) k | _ \<Rightarrow> None)"

definition get_index_0 :: "json \<Rightarrow> json option" where
  "get_index_0 v =
     (case v of
        JArray es \<Rightarrow> (case es of [] \<Rightarrow> None | e # _ \<Rightarrow> Some e)
      | JObject ms \<Rightarrow> map_of (rev ms) (js ''0'')
      | JString s \<Rightarrow> (case s of [] \<Rightarrow> None | c # _ \<Rightarrow> Some (JString [c]))
      | _ \<Rightarrow> None)"

datatype js_error = SyntaxError | TypeError

text \<open>\<open>json.choices[0]?.delta?.content\<close>: reading a property of \<open>null\<close> or
  \<open>undefined\<close> throws, \<open>?.\<close> gives \<open>undefined\<close> instead.\<close>

definition optional_chain :: "json option \<Rightarrow> jsstring \<Rightarrow> json option" where
  "optional_chain v k =
     (case v of None \<Rightarrow> None | Some JNull \<Rightarrow> None | Some x \<Rightarrow> get_property x k)"

definition delta_content :: "json \<Rightarrow> js_error + json option" where
  "delta_content json =
     (if json = JNull then Inl TypeError
      else (case get_property json (js ''choices'') of
              None \<Rightarrow> Inl TypeError
            | Some JNull \<Rightarrow> Inl TypeError
            | Some choices \<Rightarrow>
                Inr (optional_chain (optional_chain (get_index_0 choices) (js ''delta'')) (js ''content''))))"

text \<open>
  \<open>if (content)\<close> and \<open>fullResponse += content\<close>. Printing a number is floating
  point: \<open>num\<close> stands for \<open>Number.prototype.toString\<close> on the value of a JSON
  number literal (a number is falsy exactly when it prints as \<open>0\<close>). On the literal
  of an integer below \<open>2^53\<close> written without sign, fraction or exponent it returns the
  literal, which is what \<open>integer_literal\<close> does.
\<close>

fun join_strings :: "jsstring \<Rightarrow> jsstring list \<Rightarrow> jsstring" where
  "join_strings sep [] = []"
| "join_strings sep [x] = x"
| "join_strings sep (x # y # ys) = x @ sep @ join_strings sep (y # ys)"

fun to_string :: "(jsstring \<Rightarrow> jsstring) \<Rightarrow> json \<Rightarrow> jsstring" where
  "to_string num JNull = js ''null''"
| "to_string num (JBool b) = (if b then js ''true'' else js ''false'')"
| "to_string num (JNumber lx) = num lx"
| "to_string num (JString s) = s"
| "to_string num (JArray es) =
     join_strings (js '','') (map (\<lambda>e. if e = JNull then [] else to_string num e) es)"
| "to_string num (JObject ms) = js ''[object Object]''"

definition truthy :: "(jsstring \<Rightarrow> jsstring) \<Rightarrow> json option \<Rightarrow> bool" where
  "truthy num v =
     (case v of
        None \<Rightarrow> False
      | Some JNull \<Rightarrow> False
      | Some (JBool b) \<Rightarrow> b
      | Some (JNumber lx) \<Rightarrow> num lx \<noteq> js ''0''
      | Some (JString s) \<Rightarrow> s \<noteq> []
      | Some _ \<Rightarrow> True)"

definition integer_literal :: "jsstring \<Rightarrow> jsstring" where
  "integer_literal lx = lx"

subsection \<open>The read loop of \<open>_processStream\<close>\<close>

text \<open>
  The state of the loop: the accumulated \<open>fullResponse\<close>, and the data that
  \<open>console.error\<close> reported. (The redraws requested from the browser do not change
  either.) The body of \<open>try\<close> on one data payload gives the content or the error
  that \<open>catch\<close> receives.
\<close>

record stream_progress =
  fullResponse :: jsstring
  console_errors :: "jsstring list"

definition try_content :: "jsstring \<Rightarrow> js_error + json option" where
  "try_content data =
     (case JSON_parse data of None \<Rightarrow> Inl SyntaxError | Some json \<Rightarrow> delta_content json)"

text \<open>The \<open>for\<close> loop over the segments of one chunk; \<open>break\<close> leaves it.\<close>

fun process_lines ::
  "(jsstring \<Rightarrow> jsstring) \<Rightarrow> stream_progress \<Rightarrow> jsstring list \<Rightarrow> stream_progress" where
  "process_lines num p [] = p"
| "process_lines num p (line # lines) =
     (if startsWith line (js ''data: '') then
        (let data = drop 6 line
         in if trim data = js ''[DONE]'' then p
            else (case try_content data of
                    Inl e \<Rightarrow> process_lines num (p\<lparr>console_errors := console_errors p @ [data]\<rparr>) lines
                  | Inr None \<Rightarrow> process_lines num p lines
                  | Inr (Some v) \<Rightarrow>
                      if truthy num (Some v)
                      then process_lines num (p\<lparr>fullResponse := fullResponse p @ to_string num v\<rparr>) lines
                      else process_lines num p lines))
      else process_lines num p lines)"

text \<open>The \<open>while\<close> loop: one chunk per \<open>reader.read()\<close>, until the stream is done.\<close>

fun read_loop ::
  "(jsstring \<Rightarrow> jsstring) \<Rightarrow> TextDecoder \<Rightarrow> stream_progress \<Rightarrow> byte list list \<Rightarrow> stream_progress" where
  "read_loop num decoder p [] = p"
| "read_loop num decoder p (v # later) =
     (let (chunk, decoder') = TextDecoder_decode decoder v
      in read_loop num decoder' (process_lines num p (split_events chunk)) later)"

definition processStream :: "(jsstring \<Rightarrow> jsstring) \<Rightarrow> byte list list \<Rightarrow> jsstring" where
  "processStream num chunks =
     fullResponse (read_loop num new_TextDecoder \<lparr>fullResponse = [], console_errors = []\<rparr> chunks)"


text \<open>ASCII text as the bytes of a chunk.\<close>

definition ascii :: "string \<Rightarrow> byte list" where
  "ascii s = map (\<lambda>c. of_nat (of_char c)) s"


text \<open>A segment that carries the terminal sentinel, and the decoder after some chunks.\<close>

definition is_done_line :: "jsstring \<Rightarrow> bool" where
  "is_done_line l \<longleftrightarrow> startsWith l (js ''data: '') \<and> trim (drop 6 l) = js ''[DONE]''"


section \<open>The response formatter\<close>

subsection \<open>The protected blocks\<close>

text \<open>
  \<open>protectedBlockRegex\<close> is \<open>/(```[\s\S]*?```|(?:\n|^)(?:\|.*?\n){2,})/g\<close>. Matching
  at a fixed position of the text: the first alternative is three backticks, the
  shortest text that is followed by three backticks, and these; the second is a line
  feed, or the very start of the text, followed by as many lines as there are (two at
  least) that begin with a pipe and run to their line feed without another line
  terminator (\<open>.\<close> matches none). A match gives the matched text and the rest.
\<close>

fun until_fence :: "jsstring \<Rightarrow> jsstring \<Rightarrow> (jsstring \<times> jsstring) option" where
  "until_fence body [] = None"
| "until_fence body (c # cs) =
     (if startsWith (c # cs) (js ''```'') then Some (body @ js ''```'', drop 2 cs)
      else until_fence (body @ [c]) cs)"

definition match_fence :: "jsstring \<Rightarrow> (jsstring \<times> jsstring) option" where
  "match_fence s =
     (if startsWith s (js ''```'') then until_fence (js ''```'') (drop 3 s) else None)"

fun until_line_feed :: "jsstring \<Rightarrow> jsstring \<Rightarrow> (jsstring \<times> jsstring) option" where
  "until_line_feed line [] = None"
| "until_line_feed line (c # cs) =
     (if c = 0x0A then Some (line @ [c], cs)
      else if is_line_terminator c then None
      else until_line_feed (line @ [c]) cs)"

definition pipe_line :: "jsstring \<Rightarrow> (jsstring \<times> jsstring) option" where
  "pipe_line s =
     (case s of
        [] \<Rightarrow> None
      | c # cs \<Rightarrow> if c = 0x7C then until_line_feed [c] cs else None)"

lemma until_line_feed_shorter:
  "until_line_feed line s = Some (m, rest) \<Longrightarrow> length rest < length s"
  by (induction s arbitrary: line) (auto split: if_splits simp: less_Suc_eq)

lemma pipe_line_shorter: "pipe_line s = Some (m, rest) \<Longrightarrow> length rest < length s"
  by (cases s) (auto simp: pipe_line_def less_Suc_eq dest!: until_line_feed_shorter split: if_splits)

text \<open>The greedy repetition: the lines, how many they are, and the rest.\<close>

function pipe_lines :: "jsstring \<Rightarrow> nat \<times> jsstring \<times> jsstring" where
  "pipe_lines s =
     (case pipe_line s of
        None \<Rightarrow> (0, [], s)
      | Some (l, rest) \<Rightarrow>
          (case pipe_lines rest of (n, ls, rest') \<Rightarrow> (Suc n, l @ ls, rest')))"
  by pat_completeness auto
termination
  by (relation "measure length") (auto dest: pipe_line_shorter)

declare pipe_lines.simps [simp del]

definition table_lines :: "jsstring \<Rightarrow> (jsstring \<times> jsstring) option" where
  "table_lines s = (case pipe_lines s of (n, ls, rest) \<Rightarrow> if 2 \<le> n then Some (ls, rest) else None)"

definition match_table :: "bool \<Rightarrow> jsstring \<Rightarrow> (jsstring \<times> jsstring) option" where
  "match_table at_start s =
     (case (case s of [] \<Rightarrow> None
                    | c # cs \<Rightarrow> if c = 0x0A then table_lines cs else None) of
        Some (ls, rest) \<Rightarrow> Some (0x0A # ls, rest)
      | None \<Rightarrow> if at_start then table_lines s else None)"

definition match_protected :: "bool \<Rightarrow> jsstring \<Rightarrow> (jsstring \<times> jsstring) option" where
  "match_protected at_start s =
     (case match_fence s of
        Some r \<Rightarrow> Some r
      | None \<Rightarrow> match_table at_start s)"

lemma until_fence_shorter:
  "until_fence body s = Some (m, rest) \<Longrightarrow> length rest < length s"
  by (induction s arbitrary: body) (auto split: if_splits simp: less_Suc_eq)

lemma pipe_lines_shorter: "pipe_lines s = (n, ls, rest) \<Longrightarrow> length rest \<le> length s"
proof (induction s arbitrary: n ls rest rule: pipe_lines.induct)
  case (1 s)
  show ?case
  proof (cases "pipe_line s")
    case None
    with "1.prems" show ?thesis by (simp add: pipe_lines.simps)
  next
    case (Some a)
    obtain l r where a: "a = (l, r)" by (cases a)
    obtain n' ls' r' where p: "pipe_lines r = (n', ls', r')" by (cases "pipe_lines r") auto
    from "1.prems" Some a p have "rest = r'" by (simp add: pipe_lines.simps)
    moreover have "length r' \<le> length r" using "1.IH"[OF Some a[symmetric] p] .
    moreover have "length r < length s" using pipe_line_shorter Some a by blast
    ultimately show ?thesis by simp
  qed
qed

lemma match_protected_shorter:
  "match_protected at_start s = Some (m, rest) \<Longrightarrow> length rest < length s"
proof -
  assume a: "match_protected at_start s = Some (m, rest)"
  have t: "table_lines u = Some (ls, r) \<Longrightarrow> length r < length u" for u ls r
  proof -
    assume b: "table_lines u = Some (ls, r)"
    obtain n where n: "pipe_lines u = (n, ls, r)" "2 \<le> n"
      using b by (auto simp: table_lines_def split: prod.splits if_splits)
    then obtain l r1 where l: "pipe_line u = Some (l, r1)"
      by (cases "pipe_line u") (auto simp: pipe_lines.simps)
    obtain n' ls' r' where p: "pipe_lines r1 = (n', ls', r')" by (cases "pipe_lines r1") auto
    from n(1) l p have "r = r'" by (simp add: pipe_lines.simps)
    with pipe_lines_shorter[OF p] pipe_line_shorter[OF l] show ?thesis by simp
  qed
  show ?thesis
  proof (cases "match_fence s")
    case (Some r)
    with a have "until_fence (js ''```'') (drop 3 s) = Some (m, rest)"
      by (auto simp: match_protected_def match_fence_def split: if_splits)
    from until_fence_shorter[OF this] show ?thesis by simp
  next
    case None
    with a have mt: "match_table at_start s = Some (m, rest)" by (simp add: match_protected_def)
    show ?thesis
    proof (cases s)
      case Nil
      with mt t[of "[]"] show ?thesis
        by (auto simp: match_table_def split: if_splits)
    next
      case (Cons c cs)
      with mt t[of cs] t[of s] show ?thesis
        by (auto simp: match_table_def less_Suc_eq split: if_splits option.splits)
    qed
  qed
qed

text \<open>
  \<open>text.split(protectedBlockRegex)\<close>: the regular expression is tried at every
  position from the end of the last match on; only position 0 is the start of the
  text. The result alternates the text between the matches (even indices) and the
  matches, which the capture group returns (odd indices).
\<close>

function split_protected :: "bool \<Rightarrow> jsstring \<Rightarrow> jsstring \<Rightarrow> jsstring list" where
  "split_protected at_start piece [] = [piece]"
| "split_protected at_start piece (c # cs) =
     (case match_protected at_start (c # cs) of
        Some (m, rest) \<Rightarrow> piece # m # split_protected False [] rest
      | None \<Rightarrow> split_protected False (piece @ [c]) cs)"
  by pat_completeness auto
termination
  by (relation "measure (\<lambda>(a, p, s). length s)") (auto dest: match_protected_shorter)

subsection \<open>The text outside the protected blocks\<close>

text \<open>
  \<open>replace(/^\s*([*-]|\d+\.)\s+/gm, '\<bullet> ')\<close>. A match at a line start: all the white
  space there is, a marker (\<open>*\<close>, \<open>-\<close>, or all the digits there are and a dot), and
  all the white space that follows, one at least. It gives the matched text and the
  rest.
\<close>

definition white_space_plus :: "jsstring \<Rightarrow> jsstring \<Rightarrow> (jsstring \<times> jsstring) option" where
  "white_space_plus matched s =
     (if takeWhile is_white_space s = [] then None
      else Some (matched @ takeWhile is_white_space s, dropWhile is_white_space s))"

definition match_bullet :: "jsstring \<Rightarrow> (jsstring \<times> jsstring) option" where
  "match_bullet s =
     (let w = takeWhile is_white_space s; s1 = dropWhile is_white_space s
      in case s1 of
           [] \<Rightarrow> None
         | c # cs \<Rightarrow>
             if c = 0x2A \<or> c = 0x2D then white_space_plus (w @ [c]) cs
             else if is_decimal_digit c then
               (let ds = takeWhile is_decimal_digit s1; s2 = dropWhile is_decimal_digit s1
                in case s2 of
                     [] \<Rightarrow> None
                   | d # s3 \<Rightarrow> if d = 0x2E then white_space_plus (w @ ds @ [d]) s3 else None)
             else None)"

lemma white_space_plus_shorter:
  "white_space_plus matched s = Some (m, rest) \<Longrightarrow> length rest < length s"
  by (cases s) (auto simp: white_space_plus_def le_imp_less_Suc length_dropWhile_le split: if_splits)

lemma match_bullet_shorter: "match_bullet s = Some (m, rest) \<Longrightarrow> length rest < length s"
proof -
  assume a: "match_bullet s = Some (m, rest)"
  let ?s1 = "dropWhile is_white_space s"
  have s1: "length ?s1 \<le> length s" by (rule length_dropWhile_le)
  from a obtain c cs where c: "?s1 = c # cs" by (cases ?s1) (auto simp: match_bullet_def)
  show ?thesis
  proof (cases "c = 0x2A \<or> c = 0x2D")
    case True
    with a c obtain mm where "white_space_plus mm cs = Some (m, rest)"
      by (auto simp: match_bullet_def Let_def)
    from white_space_plus_shorter[OF this] s1 c show ?thesis by simp
  next
    case False
    let ?s2 = "dropWhile is_decimal_digit ?s1"
    have s2: "length ?s2 \<le> length ?s1" by (rule length_dropWhile_le)
    from a c False obtain d s3 mm where d: "?s2 = d # s3" "white_space_plus mm s3 = Some (m, rest)"
      by (auto simp: match_bullet_def Let_def split: if_splits list.splits)
    from white_space_plus_shorter[OF d(2)] d(1) s1 s2 show ?thesis by simp
  qed
qed

text \<open>
  The global replacement: the first match from the current position on is replaced,
  and the search goes on behind it. With the flag \<open>m\<close>, \<open>^\<close> holds at the start of the
  text and behind every line terminator of the text (\<open>line_start\<close>).
\<close>

function replace_bullets :: "bool \<Rightarrow> jsstring \<Rightarrow> jsstring" where
  "replace_bullets line_start [] = []"
| "replace_bullets line_start (c # cs) =
     (case (if line_start then match_bullet (c # cs) else None) of
        Some (m, rest) \<Rightarrow> [0x2022, 0x20] @ replace_bullets (is_line_terminator (last m)) rest
      | None \<Rightarrow> c # replace_bullets (is_line_terminator c) cs)"
  by pat_completeness auto
termination
  by (relation "measure (\<lambda>(b, s). length s)") (auto dest: match_bullet_shorter split: if_splits)

text \<open>\<open>replace(/\n\n+/g, '<br>')\<close>, \<open>replace(/\n/g, '<br>')\<close> and
  \<open>replace(/<br>/g, '\n\n')\<close>.\<close>

function replace_line_feed_runs :: "jsstring \<Rightarrow> jsstring" where
  "replace_line_feed_runs [] = []"
| "replace_line_feed_runs [c] = [c]"
| "replace_line_feed_runs (c # d # cs) =
     (if c = 0x0A \<and> d = 0x0A then js ''<br>'' @ replace_line_feed_runs (dropWhile (\<lambda>x. x = 0x0A) cs)
      else c # replace_line_feed_runs (d # cs))"
  by pat_completeness auto
termination
  by (relation "measure length") (auto simp: less_Suc_eq_le intro: le_SucI length_dropWhile_le)

definition replace_line_feeds :: "jsstring \<Rightarrow> jsstring" where
  "replace_line_feeds s = concat (map (\<lambda>c. if c = 0x0A then js ''<br>'' else [c]) s)"

fun replace_br :: "jsstring \<Rightarrow> jsstring" where
  "replace_br [] = []"
| "replace_br (c # cs) =
     (if startsWith (c # cs) (js ''<br>'') then [0x0A, 0x0A] @ replace_br (drop 3 cs)
      else c # replace_br cs)"

subsection \<open>\<open>_formatAssistantContent\<close>\<close>

text \<open>The function given to \<open>parts.map\<close>, and the whole formatter.\<close>

definition format_part :: "nat \<times> jsstring \<Rightarrow> jsstring" where
  "format_part ip =
     (case ip of (index, part) \<Rightarrow>
        if part = [] then []
        else if index mod 2 = 1 then part
        else (let formattedText = trim (replace_bullets True part)
              in if length formattedText > 0
                 then replace_br (replace_line_feeds (replace_line_feed_runs formattedText))
                 else formattedText))"

definition formatAssistantContent :: "jsstring \<Rightarrow> jsstring" where
  "formatAssistantContent txt =
     (if txt = [] then []
      else (let parts = split_protected True [] txt;
                formattedParts = map format_part (enumerate 0 parts)
            in trim (concat formattedParts)))"

subsection \<open>Auxiliary notions for the formatter\<close>

text \<open>
  The bullet pattern as an automaton over the code units: \<open>bullet_prefix Skip s\<close> says
  that the pattern matches at the start of \<open>s\<close>. \<open>no_bullet\<close> says that the pattern
  matches at no line start of a text, and \<open>normalize_line_feeds\<close> is what the three
  line-break replacements do to a text without \<open><\<close>: every run of line feeds becomes
  two line feeds.
\<close>

datatype bullet_state = Skip | Digits | Marked

fun bullet_prefix :: "bullet_state \<Rightarrow> jsstring \<Rightarrow> bool" where
  "bullet_prefix q [] = False"
| "bullet_prefix Skip (c # cs) =
     (if is_white_space c then bullet_prefix Skip cs
      else if c = 0x2A \<or> c = 0x2D then bullet_prefix Marked cs
      else if is_decimal_digit c then bullet_prefix Digits cs
      else False)"
| "bullet_prefix Digits (c # cs) =
     (if is_decimal_digit c then bullet_prefix Digits cs
      else if c = 0x2E then bullet_prefix Marked cs
      else False)"
| "bullet_prefix Marked (c # cs) = is_white_space c"

fun no_bullet :: "bool \<Rightarrow> jsstring \<Rightarrow> bool" where
  "no_bullet line_start [] = True"
| "no_bullet line_start (c # cs) =
     ((line_start \<longrightarrow> \<not> bullet_prefix Skip (c # cs)) \<and> no_bullet (is_line_terminator c) cs)"

function normalize_line_feeds :: "jsstring \<Rightarrow> jsstring" where
  "normalize_line_feeds [] = []"
| "normalize_line_feeds (c # cs) =
     (if c = 0x0A then 0x0A # 0x0A # normalize_line_feeds (dropWhile (\<lambda>x. x = 0x0A) cs)
      else c # normalize_line_feeds cs)"
  by pat_completeness auto
termination
  by (relation "measure length") (auto simp: less_Suc_eq_le intro: length_dropWhile_le)

section \<open>Trimming\<close>

lemma trim_decompose:
  "\<exists>w1 w2. s = w1 @ trim s @ w2 \<and> (\<forall>c\<in>set w1. is_white_space c) \<and> (\<forall>c\<in>set w2. is_white_space c)"
proof -
  let ?t = "dropWhile is_white_space s"
  let ?w1 = "takeWhile is_white_space s"
  let ?w2 = "rev (takeWhile is_white_space (rev ?t))"
  have "?t = trim s @ ?w2"
    unfolding trim_def by (metis rev_append rev_rev_ident takeWhile_dropWhile_id)
  then have "s = ?w1 @ trim s @ ?w2" by (metis takeWhile_dropWhile_id)
  moreover have "\<forall>c\<in>set ?w1. is_white_space c" by (meson set_takeWhileD)
  moreover have "\<forall>c\<in>set ?w2. is_white_space c" by (metis set_rev set_takeWhileD)
  ultimately show ?thesis by blast
qed


section \<open>Properties of the StateManager\<close>

lemma digit_cases:
  "d < 10 \<Longrightarrow> d = 0 \<or> d = 1 \<or> d = 2 \<or> d = 3 \<or> d = 4 \<or> d = 5 \<or> d = 6 \<or> d = 7 \<or> d = 8 \<or> d = (9::nat)"
  by arith

lemma digit_value_digit: "d < 10 \<Longrightarrow> digit_value (of_nat (48 + d)) = Some d"
  by (drule digit_cases, elim disjE) (simp_all add: digit_value_def)

lemma radix_digit_digit: "d < 10 \<Longrightarrow> radix_digit 10 (of_nat (48 + d))"
  by (simp add: radix_digit_def digit_value_digit del: of_nat_add)

lemma digit_not_ws: "d < 10 \<Longrightarrow> \<not> is_white_space (of_nat (48 + d))"
  by (drule digit_cases, elim disjE) (simp_all add: is_white_space_def is_line_terminator_def)

lemma digit_not_special:
  "d < 10 \<Longrightarrow> (of_nat (48 + d) :: code_unit) \<notin> {0x2B, 0x2D, 0x5F, 0x78, 0x58}"
  by (drule digit_cases, elim disjE) simp_all

lemma number_to_string_decimal: "is_decimal (number_to_string n)"
proof (induction n rule: number_to_string.induct)
  case (1 n)
  show ?case
  proof (cases "n < 10")
    case True
    then show ?thesis
      by (subst number_to_string.simps) (auto simp: is_decimal_def simp del: of_nat_add)
  next
    case False
    have m: "\<exists>d<10. (of_nat (48 + n mod 10) :: code_unit) = of_nat (48 + d)"
      by (rule exI[of _ "n mod 10"]) simp
    from 1 False have "is_decimal (number_to_string (n div 10))" by simp
    with False m show ?thesis
      by (subst number_to_string.simps) (auto simp: is_decimal_def simp del: of_nat_add)
  qed
qed

lemma digits_value_snoc:
  "digits_value R (ds @ [c]) = R * digits_value R ds + the (digit_value c)"
  by (simp add: digits_value_def)

lemma digits_value_number_to_string: "digits_value 10 (number_to_string n) = n"
proof (induction n rule: number_to_string.induct)
  case (1 n)
  show ?case
  proof (cases "n < 10")
    case True
    then show ?thesis
      by (subst number_to_string.simps) (simp add: digits_value_def digit_value_digit del: of_nat_add)
  next
    case False
    have "n mod 10 < 10" by simp
    with 1 False show ?thesis
      by (subst number_to_string.simps) (simp add: digits_value_snoc digit_value_digit del: of_nat_add)
  qed
qed

lemma number_to_string_inj: "number_to_string a = number_to_string b \<Longrightarrow> a = b"
  by (metis digits_value_number_to_string)

lemma parseInt_decimal:
  assumes "is_decimal s"
  shows "parseInt (Some s) = Some (int (digits_value 10 s))"
proof -
  obtain c cs where s: "s = c # cs" using assms by (cases s) (auto simp: is_decimal_def)
  from assms s obtain d where d: "d < 10" "c = of_nat (48 + d)" by (auto simp: is_decimal_def)
  have all: "\<forall>x\<in>set s. radix_digit 10 x"
    using assms by (auto simp: is_decimal_def radix_digit_digit simp del: of_nat_add)
  have nws: "\<not> is_white_space c" using d digit_not_ws by blast
  have nsp: "c \<noteq> 0x2B" "c \<noteq> 0x2D" using digit_not_special[OF d(1)] d(2) by auto
  have nhex: "\<not> startsWith s (js ''0x'')" "\<not> startsWith s (js ''0X'')"
  proof -
    { fix e assume "cs \<noteq> []" "hd cs = e" 
      then have "e \<in> set s" using s by (cases cs) auto
      then obtain d' where "d' < 10" "e = of_nat (48 + d')" using assms by (auto simp: is_decimal_def)
      then have "e \<noteq> 0x78 \<and> e \<noteq> 0x58" using digit_not_special[of d'] by auto }
    then show "\<not> startsWith s (js ''0x'')" "\<not> startsWith s (js ''0X'')"
      unfolding s by (cases cs; auto simp: startsWith_def js_def)+
  qed
  have tw: "takeWhile (radix_digit 10) s = s" using all by (simp add: takeWhile_eq_all_conv)
  show ?thesis
    unfolding parseInt_def using nhex tw nws nsp by (simp add: s Let_def)
qed

lemma parseInt_number_to_string: "parseInt (Some (number_to_string n)) = Some (int n)"
  by (simp add: parseInt_decimal number_to_string_decimal digits_value_number_to_string)

lemma split_underscore_1_chat:
  assumes "is_decimal s"
  shows "split_underscore_1 (js ''chat_'' @ s) = Some s"
proof -
  have "\<forall>c\<in>set s. c \<noteq> 0x5F"
    using assms digit_not_special by (fastforce simp: is_decimal_def simp del: of_nat_add)
  then have "takeWhile (\<lambda>c. c \<noteq> 0x5F) s = s" by (simp add: takeWhile_eq_all_conv)
  then show ?thesis by (simp add: split_underscore_1_def js_def)
qed

lemma timestamp_chat: "timestamp (js ''chat_'' @ number_to_string n) = Some (int n)"
  by (simp add: timestamp_def split_underscore_1_chat number_to_string_decimal parseInt_number_to_string)









lemma state_saveState [simp]: "state (saveState sm) = state sm"
  by (simp add: saveState_def)

lemma chats_set_active_chat_object:
  "chats (state (set_active_chat_object c sm)) =
     AList.update (property_key (activeChatId (state sm))) c (chats (state sm))"
  by (simp add: set_active_chat_object_def)

lemma activeChatId_set_active_chat_object [simp]:
  "activeChatId (state (set_active_chat_object c sm)) = activeChatId (state sm)"
  by (simp add: set_active_chat_object_def)








lemma chats_setActiveChat [simp]: "chats (state (setActiveChat c sm)) = chats (state sm)"
  by (simp add: setActiveChat_def)











lemma by_timestamp_desc_created:
  assumes "timestamp a = Some ta" "timestamp b = Some tb"
  shows "by_timestamp_desc a b = tb - ta"
  using assms by (simp add: by_timestamp_desc_def)















lemma distinct_ids_apply_op:
  "distinct (map fst (chats (state sm))) \<Longrightarrow> distinct (map fst (chats (state (apply_op c sm))))"
proof (cases c)
  case (DeleteChat x now)
  assume "distinct (map fst (chats (state sm)))"
  then show ?thesis
    by (simp add: DeleteChat deleteChat_def Let_def createNewChat_def distinct_delete distinct_update)
qed (auto simp: createNewChat_def addMessage_def deleteMessage_def updateSystemPrompt_def
       updateSettings_def Let_def chats_set_active_chat_object distinct_update split: option.splits)

lemma distinct_ids_run_ops:
  "distinct (map fst (chats (state sm))) \<Longrightarrow> distinct (map fst (chats (state (run_ops ops sm))))"
  unfolding run_ops_def by (induction ops arbitrary: sm) (simp_all add: distinct_ids_apply_op)

text \<open>
  Claim C9, as the code has it: the identifier \<open>createNewChat\<close> assigns is
  \<open>chat_\<close> followed by the clock reading in decimal. Two calls give different
  identifiers exactly when their clock readings differ; the timestamp read back from
  the identifier is the clock reading; the new chat is stored under its identifier and
  is active; and the keys of every reachable store are pairwise distinct.
\<close>

theorem created_ids_follow_clock:
  "(fst (createNewChat t1 sm1) = fst (createNewChat t2 sm2) \<longleftrightarrow> t1 = t2)
   \<and> fst (createNewChat t sm) = js ''chat_'' @ number_to_string t
   \<and> timestamp (fst (createNewChat t sm)) = Some (int t)
   \<and> map_option chat_id (map_of (chats (state (snd (createNewChat t sm)))) (fst (createNewChat t sm)))
       = Some (fst (createNewChat t sm))
   \<and> activeChatId (state (snd (createNewChat t sm))) = Some (fst (createNewChat t sm))
   \<and> distinct (map fst (chats (state (run_ops ops new_StateManager))))"
proof -
  have "distinct (map fst (chats (state (run_ops ops new_StateManager))))"
    by (rule distinct_ids_run_ops) (simp add: new_StateManager_def defaultState_def)
  moreover have "js ''chat_'' \<noteq> []" by (simp add: js_def)
  ultimately show ?thesis
    using number_to_string_inj[of t1 t2]
    by (auto simp: createNewChat_def Let_def timestamp_chat setActiveChat_def update_conv' property_key_def)
qed

text \<open>
  Claim C9 as stated fails: two calls within the same millisecond assign the same
  identifier (the second chat replaces the first).
\<close>

theorem same_millisecond_same_id:
  "fst (createNewChat 5 new_StateManager) = fst (createNewChat 5 (snd (createNewChat 5 new_StateManager)))"
  by (simp add: createNewChat_def Let_def)

section \<open>Properties of the stream decoder\<close>




lemma process_lines_same_response:
  "fullResponse p = fullResponse q \<Longrightarrow>
     fullResponse (process_lines num p ls) = fullResponse (process_lines num q ls)"
proof (induction ls arbitrary: p q)
  case Nil
  then show ?case by simp
next
  case (Cons l ls)
  have e: "fullResponse (p\<lparr>console_errors := x\<rparr>) = fullResponse (q\<lparr>console_errors := y\<rparr>)" for x y
    using Cons.prems by simp
  have f: "fullResponse (p\<lparr>fullResponse := fullResponse p @ x\<rparr>)
         = fullResponse (q\<lparr>fullResponse := fullResponse q @ x\<rparr>)" for x
    using Cons.prems by simp
  show ?case
    using Cons.prems Cons.IH[OF Cons.prems] Cons.IH[OF e] Cons.IH[OF f]
    by (simp add: Let_def split: sum.splits option.splits)
qed

lemma read_loop_same_response:
  "fullResponse p = fullResponse q \<Longrightarrow>
     fullResponse (read_loop num d p chunks) = fullResponse (read_loop num d q chunks)"
proof (induction chunks arbitrary: d p q)
  case Nil
  then show ?case by simp
next
  case (Cons v later)
  show ?case
    using Cons.IH[OF process_lines_same_response[OF Cons.prems]]
    by (simp add: split_beta Let_def)
qed

lemma process_lines_done:
  "is_done_line l \<Longrightarrow> process_lines num p (pre @ l # post) = process_lines num p pre"
proof (induction pre arbitrary: p)
  case Nil
  then show ?case by (simp add: is_done_line_def)
next
  case (Cons a pre)
  then show ?case by (simp add: Let_def split: sum.splits option.splits)
qed

lemma startsWith_append_same [simp]: "startsWith (m @ s) m"
  by (simp add: startsWith_def)

lemma length_data_marker [simp]: "length (js ''data: '') = 6"
  by (simp add: js_def)





lemma process_line_increment:
  assumes "trim payload \<noteq> js ''[DONE]''" "try_content payload = Inr (Some (JString c))"
  shows "process_lines num p ((js ''data: '' @ payload) # ls) =
           process_lines num (p\<lparr>fullResponse := fullResponse p @ c\<rparr>) ls"
  using assms by (cases "c = []") (simp_all add: Let_def truthy_def)



lemma json_lex_white_space:
  assumes w: "is_white_space c" and n: "\<not> is_json_white_space c"
  shows "json_lex (c # cs) = None"
proof -
  have "\<not> is_decimal_digit c"
    using w unfolding is_white_space_def is_line_terminator_def is_decimal_digit_def word_le_nat_alt
    by auto
  moreover have "c \<notin> {0x7B, 0x7D, 0x5B, 0x5D, 0x3A, 0x2C, 0x22, 0x2D, 0x74, 0x66, 0x6E}"
    using w unfolding is_white_space_def is_line_terminator_def by auto
  ultimately have "c \<notin> {0x7B, 0x7D, 0x5B, 0x5D, 0x3A, 0x2C, 0x22, 0x2D, 0x74, 0x66, 0x6E}" "\<not> is_decimal_digit c"
    by blast+
  then show ?thesis using n by (simp add: startsWith_def js_def)
qed

lemma json_lex_skip_white_space:
  assumes "\<forall>c\<in>set w. is_white_space c" "json_lex s = None"
  shows "json_lex (w @ s) = None"
  using assms
proof (induction w)
  case Nil
  then show ?case by simp
next
  case (Cons c w)
  show ?case
  proof (cases "is_json_white_space c")
    case True
    then show ?thesis using Cons by simp
  next
    case False
    then show ?thesis using Cons.prems json_lex_white_space[of c "w @ s"] by simp
  qed
qed

lemma json_lex_sentinel: "json_lex (js ''[DONE]'' @ w) = None"
  by (simp add: js_def is_json_white_space_def is_decimal_digit_def startsWith_def)

lemma sentinel_not_JSON: "trim s = js ''[DONE]'' \<Longrightarrow> JSON_parse s = None"
proof -
  assume t: "trim s = js ''[DONE]''"
  from trim_decompose[of s] obtain w1 w2 where
    s: "s = w1 @ trim s @ w2" and w1: "\<forall>c\<in>set w1. is_white_space c" by blast
  have "json_lex (w1 @ js ''[DONE]'' @ w2) = None"
    using json_lex_skip_white_space[OF w1 json_lex_sentinel] .
  then have "json_lex s = None" using s t by simp
  then show ?thesis by (simp add: JSON_parse_def)
qed

lemma content_not_sentinel: "try_content s = Inr c \<Longrightarrow> trim s \<noteq> js ''[DONE]''"
  using sentinel_not_JSON[of s] by (auto simp: try_content_def)




lemma boundaries_serialize [simp]:
  "utf8_lower_boundary (snd (serialize e xs)) = utf8_lower_boundary e"
  "utf8_upper_boundary (snd (serialize e xs)) = utf8_upper_boundary e"
  by (induction xs arbitrary: e) (simp_all add: split_beta Let_def)






lemma process_lines_last_dropped:
  assumes "\<not> startsWith l (js ''data: '') \<or> JSON_parse (drop 6 l) = None"
  shows "fullResponse (process_lines num p (ls @ [l])) = fullResponse (process_lines num p ls)"
proof (induction ls arbitrary: p)
  case Nil
  show ?case using assms by (auto simp: Let_def try_content_def)
next
  case (Cons a ls)
  show ?case using Cons.IH by (simp add: Let_def split: sum.splits option.splits)
qed

lemma process_lines_first_ignored:
  "\<not> startsWith l (js ''data: '') \<Longrightarrow> process_lines num p (l # ls) = process_lines num p ls"
  by simp




lemma read_loop_step:
  "TextDecoder_decode d v = (chunk, d') \<Longrightarrow> split_events chunk = ls \<Longrightarrow>
     read_loop num d p (v # later) = read_loop num d' (process_lines num p ls) later"
  by simp

lemma decode_ascii_byte:
  assumes "utf8_bytes_needed d = 0" "(of_char c :: nat) < 128"
  shows "utf8_handler d (of_nat (of_char c)) = ([of_char c], d)"
proof -
  have u: "unat (of_nat (of_char c) :: byte) = of_char c"
    using assms(2) by (simp add: unat_of_nat)
  then have "(of_nat (of_char c) :: byte) \<le> 0x7F"
    using assms(2) by (simp add: word_le_nat_alt)
  then show ?thesis using assms(1) u by (simp add: utf8_handler_def utf8_lead_def)
qed

lemma decode_ascii:
  assumes "utf8_bytes_needed d = 0" "\<forall>c\<in>set s. (of_char c :: nat) < 128"
  shows "TextDecoder_decode d (ascii s) = (js s, if s = [] then d else d\<lparr>BOM_seen := True\<rparr>)"
  using assms
proof (induction s arbitrary: d)
  case Nil
  then show ?case by (simp add: ascii_def js_def)
next
  case (Cons c s)
  have c: "(of_char c :: nat) < 128" using Cons.prems(2) by simp
  have h: "utf8_handler d (of_nat (of_char c)) = ([of_char c], d)"
    using decode_ascii_byte[OF Cons.prems(1) c] .
  have ser: "serialize d [of_char c] = ([of_nat (of_char c)], d\<lparr>BOM_seen := True\<rparr>)"
    using c by (auto simp: utf16_units_def)
  have n: "utf8_bytes_needed (d\<lparr>BOM_seen := True\<rparr>) = 0" using Cons.prems(1) by simp
  have "TextDecoder_decode (d\<lparr>BOM_seen := True\<rparr>) (ascii s)
          = (js s, d\<lparr>BOM_seen := True\<rparr>)"
    using Cons.IH[OF n] Cons.prems(2) by simp
  then have "TextDecoder_decode (d\<lparr>BOM_seen := True\<rparr>) (map (\<lambda>c. of_nat (of_char c)) s)
          = (js s, d\<lparr>BOM_seen := True\<rparr>)"
    by (simp add: ascii_def)
  then show ?case
    using h ser by (simp add: ascii_def js_def)
qed

lemma decode_ascii_new:
  assumes "s \<noteq> []" "\<forall>c\<in>set s. (of_char c :: nat) < 128"
  shows "TextDecoder_decode new_TextDecoder (ascii s) = (js s, new_TextDecoder\<lparr>BOM_seen := True\<rparr>)"
    and "TextDecoder_decode (new_TextDecoder\<lparr>BOM_seen := True\<rparr>) (ascii s)
           = (js s, new_TextDecoder\<lparr>BOM_seen := True\<rparr>)"
  using decode_ascii[of new_TextDecoder s] decode_ascii[of "new_TextDecoder\<lparr>BOM_seen := True\<rparr>" s] assms
  by (simp_all add: new_TextDecoder_def)

lemmas json_eval = JSON_parse_def is_json_white_space_def is_decimal_digit_def
  startsWith_def scalar_token_def json_open_def json_key_def json_close_def cons_unit_def
  lex_number_def lex_int_def lex_frac_def lex_exp_def lex_digits_def simple_escape_def
  hex_digit_def digit_value_def

lemmas content_eval = try_content_def delta_content_def get_property_def get_index_0_def
  optional_chain_def truthy_def


lemmas trim_eval = trim_def is_white_space_def is_line_terminator_def



text \<open>
  Claim C4, as the code has it. When a data segment's payload, trimmed, is the sentinel
  \<open>[DONE]\<close>, the \<open>break\<close> leaves the loop over the segments of the current chunk:
  the segments before the sentinel have been processed, every segment after it in the
  same chunk is skipped. The read loop is not left: it goes on with the later chunks,
  from the progress made so far, until the stream is done.
\<close>

theorem sentinel_skips_rest_of_chunk:
  assumes "TextDecoder_decode d v = (chunk, d')"
    and "split_events chunk = before @ l # after"
    and "startsWith l (js ''data: '')"
    and "trim (drop 6 l) = js ''[DONE]''"
  shows "read_loop num d p (v # later) = read_loop num d' (process_lines num p before) later"
proof -
  have "is_done_line l" using assms(3,4) by (simp add: is_done_line_def)
  then have "process_lines num p (before @ l # after) = process_lines num p before"
    by (rule process_lines_done)
  with read_loop_step[OF assms(1,2)] show ?thesis by simp
qed

lemma content_A:
  "try_content (js ''{\"choices\":[{\"delta\":{\"content\":\"A\"}}]}'') = Inr (Some (JString (js ''A'')))"
  by (simp add: json_eval content_eval js_def)


lemma content_C:
  "try_content (js ''{\"choices\":[{\"delta\":{\"content\":\"C\"}}]}'') = Inr (Some (JString (js ''C'')))"
  by (simp add: json_eval content_eval js_def)

lemma trim_sentinel: "trim (js ''[DONE]'') = js ''[DONE]''"
  by (simp add: trim_eval js_def)

text \<open>
  Claim C4 on a stream of two chunks: \<open>A\<close>, the sentinel and \<open>B\<close> in the first,
  \<open>C\<close> in the second. The result is \<open>AC\<close>.
\<close>

theorem sentinel_skips_rest_of_chunk_witness:
  "processStream integer_literal
     [ascii ''data: {\"choices\":[{\"delta\":{\"content\":\"A\"}}]}\<newline>\<newline>data: [DONE]\<newline>\<newline>data: {\"choices\":[{\"delta\":{\"content\":\"B\"}}]}\<newline>\<newline>'',
      ascii ''data: {\"choices\":[{\"delta\":{\"content\":\"C\"}}]}\<newline>\<newline>'']
   = js ''AC''"
proof -
  let ?p0 = "\<lparr>fullResponse = [], console_errors = []\<rparr>"
  let ?A = "js ''{\"choices\":[{\"delta\":{\"content\":\"A\"}}]}''"
  let ?B = "js ''{\"choices\":[{\"delta\":{\"content\":\"B\"}}]}''"
  let ?C = "js ''{\"choices\":[{\"delta\":{\"content\":\"C\"}}]}''"
  let ?v = "ascii ''data: {\"choices\":[{\"delta\":{\"content\":\"A\"}}]}\<newline>\<newline>data: [DONE]\<newline>\<newline>data: {\"choices\":[{\"delta\":{\"content\":\"B\"}}]}\<newline>\<newline>''"
  let ?w = "ascii ''data: {\"choices\":[{\"delta\":{\"content\":\"C\"}}]}\<newline>\<newline>''"
  let ?d = "new_TextDecoder\<lparr>BOM_seen := True\<rparr>"
  have d1: "TextDecoder_decode new_TextDecoder ?v
      = (js ''data: {\"choices\":[{\"delta\":{\"content\":\"A\"}}]}\<newline>\<newline>data: [DONE]\<newline>\<newline>data: {\"choices\":[{\"delta\":{\"content\":\"B\"}}]}\<newline>\<newline>'', ?d)"
    by (rule decode_ascii_new(1)) simp_all
  have s1: "split_events (js ''data: {\"choices\":[{\"delta\":{\"content\":\"A\"}}]}\<newline>\<newline>data: [DONE]\<newline>\<newline>data: {\"choices\":[{\"delta\":{\"content\":\"B\"}}]}\<newline>\<newline>'')
      = [js ''data: '' @ ?A] @ (js ''data: '' @ js ''[DONE]'') # [js ''data: '' @ ?B, []]"
    by (simp add: split_events_def js_def)
  have d2: "TextDecoder_decode ?d ?w
      = (js ''data: {\"choices\":[{\"delta\":{\"content\":\"C\"}}]}\<newline>\<newline>'', ?d)"
    by (rule decode_ascii_new(2)) simp_all
  have s2: "split_events (js ''data: {\"choices\":[{\"delta\":{\"content\":\"C\"}}]}\<newline>\<newline>'')
      = [js ''data: '' @ ?C, []]"
    by (simp add: split_events_def js_def)
  have m: "startsWith (js ''data: '' @ js ''[DONE]'') (js ''data: '')" by simp
  have t: "trim (drop 6 (js ''data: '' @ js ''[DONE]'')) = js ''[DONE]''"
    by (simp add: trim_sentinel)
  have la: "process_lines integer_literal ?p0 [js ''data: '' @ ?A] = ?p0\<lparr>fullResponse := js ''A''\<rparr>"
    using process_line_increment[OF content_not_sentinel[OF content_A] content_A, of integer_literal ?p0 "[]"]
    by simp
  have lc: "process_lines integer_literal (?p0\<lparr>fullResponse := js ''A''\<rparr>) [js ''data: '' @ ?C, []]
      = ?p0\<lparr>fullResponse := js ''A'' @ js ''C''\<rparr>"
    using process_line_increment[OF content_not_sentinel[OF content_C] content_C,
            of integer_literal "?p0\<lparr>fullResponse := js ''A''\<rparr>" "[[]]"]
    by (simp add: startsWith_def js_def)
  have "read_loop integer_literal new_TextDecoder ?p0 [?v, ?w]
      = read_loop integer_literal ?d (process_lines integer_literal ?p0 [js ''data: '' @ ?A]) [?w]"
    by (rule sentinel_skips_rest_of_chunk[OF d1 s1 m t])
  also have "\<dots> = ?p0\<lparr>fullResponse := js ''A'' @ js ''C''\<rparr>"
    by (simp only: la read_loop_step[OF d2 s2] lc read_loop.simps(1))
  finally show ?thesis by (simp add: processStream_def js_def)
qed

text \<open>
  Claim C4 as stated fails: a data segment that follows the sentinel in the same chunk
  is not processed.
\<close>

theorem segment_after_sentinel_skipped:
  "processStream integer_literal
     [ascii ''data: [DONE]\<newline>\<newline>data: {\"choices\":[{\"delta\":{\"content\":\"B\"}}]}\<newline>\<newline>''] = []"
proof -
  let ?p0 = "\<lparr>fullResponse = [], console_errors = []\<rparr>"
  let ?B = "js ''{\"choices\":[{\"delta\":{\"content\":\"B\"}}]}''"
  have d1: "TextDecoder_decode new_TextDecoder
        (ascii ''data: [DONE]\<newline>\<newline>data: {\"choices\":[{\"delta\":{\"content\":\"B\"}}]}\<newline>\<newline>'')
      = (js ''data: [DONE]\<newline>\<newline>data: {\"choices\":[{\"delta\":{\"content\":\"B\"}}]}\<newline>\<newline>'',
         new_TextDecoder\<lparr>BOM_seen := True\<rparr>)"
    by (rule decode_ascii_new(1)) simp_all
  have s1: "split_events (js ''data: [DONE]\<newline>\<newline>data: {\"choices\":[{\"delta\":{\"content\":\"B\"}}]}\<newline>\<newline>'')
      = [js ''data: '' @ js ''[DONE]'', js ''data: '' @ ?B, []]"
    by (simp add: split_events_def js_def)
  have "process_lines integer_literal ?p0 [js ''data: '' @ js ''[DONE]'', js ''data: '' @ ?B, []] = ?p0"
    by (simp add: trim_sentinel)
  then show ?thesis
    unfolding processStream_def by (simp only: read_loop_step[OF d1 s1] read_loop.simps(1)) simp
qed



text \<open>
  Claim C10, as the code has it. Every chunk is split on its own, nothing is carried
  over to the next read. When the last segment of one chunk is the data marker with a
  first fragment that is not a JSON text by itself, and the first segment of the next
  chunk, the second fragment, does not begin with the data marker, the event adds
  nothing to the accumulated text: the result is the one of the other segments of the
  two chunks alone.
\<close>

theorem split_event_dropped:
  assumes "TextDecoder_decode d v1 = (chunk1, d1)"
    and "TextDecoder_decode d1 v2 = (chunk2, d2)"
    and "split_events chunk1 = lines1 @ [js ''data: '' @ fragment1]"
    and "split_events chunk2 = fragment2 # lines2"
    and "JSON_parse fragment1 = None"
    and "\<not> startsWith fragment2 (js ''data: '')"
  shows "fullResponse (read_loop num d p (v1 # v2 # later))
           = fullResponse (read_loop num d2
               (process_lines num (process_lines num p lines1) lines2) later)"
proof -
  let ?q1 = "process_lines num p (lines1 @ [js ''data: '' @ fragment1])"
  have f1: "fullResponse ?q1 = fullResponse (process_lines num p lines1)"
    by (rule process_lines_last_dropped) (simp add: assms(5))
  have "read_loop num d p (v1 # v2 # later)
          = read_loop num d2 (process_lines num ?q1 (fragment2 # lines2)) later"
    by (simp only: read_loop_step[OF assms(1,3)] read_loop_step[OF assms(2,4)])
  also have "\<dots> = read_loop num d2 (process_lines num ?q1 lines2) later"
    by (simp only: process_lines_first_ignored[OF assms(6)])
  finally have "fullResponse (read_loop num d p (v1 # v2 # later))
          = fullResponse (read_loop num d2 (process_lines num ?q1 lines2) later)"
    by simp
  also have "\<dots> = fullResponse (read_loop num d2
               (process_lines num (process_lines num p lines1) lines2) later)"
    by (rule read_loop_same_response, rule process_lines_same_response, rule f1)
  finally show ?thesis .
qed

text \<open>
  Claim C10 on three chunks: the event with the content \<open>Hello\<close> is cut inside its
  JSON text, after \<open>Hel\<close>; a whole event with the content \<open>C\<close> follows. The
  result is \<open>C\<close>.
\<close>

theorem split_event_dropped_witness:
  "processStream integer_literal
     [ascii ''data: {\"choices\":[{\"delta\":{\"content\":\"Hel'',
      ascii ''lo\"}}]}\<newline>\<newline>'',
      ascii ''data: {\"choices\":[{\"delta\":{\"content\":\"C\"}}]}\<newline>\<newline>'']
   = js ''C''"
proof -
  let ?p0 = "\<lparr>fullResponse = [], console_errors = []\<rparr>"
  let ?C = "js ''{\"choices\":[{\"delta\":{\"content\":\"C\"}}]}''"
  let ?d = "new_TextDecoder\<lparr>BOM_seen := True\<rparr>"
  have d1: "TextDecoder_decode new_TextDecoder (ascii ''data: {\"choices\":[{\"delta\":{\"content\":\"Hel'')
      = (js ''data: {\"choices\":[{\"delta\":{\"content\":\"Hel'', ?d)"
    by (rule decode_ascii_new(1)) simp_all
  have d2: "TextDecoder_decode ?d (ascii ''lo\"}}]}\<newline>\<newline>'') = (js ''lo\"}}]}\<newline>\<newline>'', ?d)"
    by (rule decode_ascii_new(2)) simp_all
  have d3: "TextDecoder_decode ?d (ascii ''data: {\"choices\":[{\"delta\":{\"content\":\"C\"}}]}\<newline>\<newline>'')
      = (js ''data: {\"choices\":[{\"delta\":{\"content\":\"C\"}}]}\<newline>\<newline>'', ?d)"
    by (rule decode_ascii_new(2)) simp_all
  have s1: "split_events (js ''data: {\"choices\":[{\"delta\":{\"content\":\"Hel'')
      = [] @ [js ''data: '' @ js ''{\"choices\":[{\"delta\":{\"content\":\"Hel'']"
    by (simp add: split_events_def js_def)
  have s2: "split_events (js ''lo\"}}]}\<newline>\<newline>'') = js ''lo\"}}]}'' # [[]]"
    by (simp add: split_events_def js_def)
  have s3: "split_events (js ''data: {\"choices\":[{\"delta\":{\"content\":\"C\"}}]}\<newline>\<newline>'')
      = [js ''data: '' @ ?C, []]"
    by (simp add: split_events_def js_def)
  have j: "JSON_parse (js ''{\"choices\":[{\"delta\":{\"content\":\"Hel'') = None"
    by (simp add: json_eval js_def)
  have m: "\<not> startsWith (js ''lo\"}}]}'') (js ''data: '')"
    by (simp add: startsWith_def js_def)
  have lc: "process_lines integer_literal ?p0 [js ''data: '' @ ?C, []] = ?p0\<lparr>fullResponse := js ''C''\<rparr>"
    using process_line_increment[OF content_not_sentinel[OF content_C] content_C, of integer_literal ?p0 "[[]]"]
    by (simp add: startsWith_def js_def)
  have "fullResponse (read_loop integer_literal new_TextDecoder ?p0
          [ascii ''data: {\"choices\":[{\"delta\":{\"content\":\"Hel'', ascii ''lo\"}}]}\<newline>\<newline>'',
           ascii ''data: {\"choices\":[{\"delta\":{\"content\":\"C\"}}]}\<newline>\<newline>''])
      = fullResponse (read_loop integer_literal ?d
          (process_lines integer_literal (process_lines integer_literal ?p0 []) [[]])
          [ascii ''data: {\"choices\":[{\"delta\":{\"content\":\"C\"}}]}\<newline>\<newline>''])"
    by (rule split_event_dropped[OF d1 d2 s1 s2 j m])
  also have "\<dots> = fullResponse (read_loop integer_literal ?d ?p0
          [ascii ''data: {\"choices\":[{\"delta\":{\"content\":\"C\"}}]}\<newline>\<newline>''])"
    by (simp add: startsWith_def js_def)
  also have "\<dots> = js ''C''"
    by (simp only: read_loop_step[OF d3 s3] lc read_loop.simps(1)) simp
  finally show ?thesis by (simp only: processStream_def)
qed

text \<open>
  Claim C10 as stated fails: an event whose segment ends with a space, delivered with
  that space in the next read, is not dropped: its first fragment is a JSON text.
\<close>

theorem split_event_not_dropped:
  "processStream integer_literal
     [ascii ''data: {\"choices\":[{\"delta\":{\"content\":\"A\"}}]}'', ascii '' \<newline>\<newline>''] = js ''A''"
proof -
  let ?p0 = "\<lparr>fullResponse = [], console_errors = []\<rparr>"
  let ?A = "js ''{\"choices\":[{\"delta\":{\"content\":\"A\"}}]}''"
  let ?d = "new_TextDecoder\<lparr>BOM_seen := True\<rparr>"
  have d1: "TextDecoder_decode new_TextDecoder (ascii ''data: {\"choices\":[{\"delta\":{\"content\":\"A\"}}]}'')
      = (js ''data: {\"choices\":[{\"delta\":{\"content\":\"A\"}}]}'', ?d)"
    by (rule decode_ascii_new(1)) simp_all
  have d2: "TextDecoder_decode ?d (ascii '' \<newline>\<newline>'') = (js '' \<newline>\<newline>'', ?d)"
    by (rule decode_ascii_new(2)) simp_all
  have s1: "split_events (js ''data: {\"choices\":[{\"delta\":{\"content\":\"A\"}}]}'') = [js ''data: '' @ ?A]"
    by (simp add: split_events_def js_def)
  have s2: "split_events (js '' \<newline>\<newline>'') = [js '' '', []]"
    by (simp add: split_events_def js_def)
  have la: "process_lines integer_literal ?p0 [js ''data: '' @ ?A] = ?p0\<lparr>fullResponse := js ''A''\<rparr>"
    using process_line_increment[OF content_not_sentinel[OF content_A] content_A, of integer_literal ?p0 "[]"]
    by simp
  have l2: "process_lines integer_literal q [js '' '', []] = q" for q
    by (simp add: startsWith_def js_def)
  show ?thesis
    unfolding processStream_def
    by (simp only: read_loop_step[OF d1 s1] la read_loop_step[OF d2 s2] l2 read_loop.simps(1)) simp
qed


section \<open>Properties of the response formatter\<close>

lemma trim_ends:
  "trim s \<noteq> [] \<Longrightarrow> \<not> is_white_space (hd (trim s)) \<and> \<not> is_white_space (last (trim s))"
proof -
  assume a: "trim s \<noteq> []"
  let ?t = "dropWhile is_white_space s"
  let ?u = "dropWhile is_white_space (rev ?t)"
  have u: "?u \<noteq> []" using a by (simp add: trim_def)
  then have hu: "\<not> is_white_space (hd ?u)" by (rule hd_dropWhile)
  have "last (trim s) = hd ?u" using u by (simp add: trim_def last_rev)
  with hu have l: "\<not> is_white_space (last (trim s))" by simp
  have t: "?t \<noteq> []"
  proof
    assume "?t = []"
    then have "?u = []" by (metis dropWhile.simps(1) rev.simps(1))
    with u show False by blast
  qed
  then have ht: "\<not> is_white_space (hd ?t)" by (rule hd_dropWhile)
  from trim_decompose[of ?t] obtain w1 w2 where
    d: "?t = w1 @ trim ?t @ w2" and w1: "\<forall>c\<in>set w1. is_white_space c" by blast
  have tt: "trim ?t = trim s" by (simp add: trim_def)
  have "w1 = []"
  proof (rule ccontr)
    assume "w1 \<noteq> []"
    then have "hd ?t = hd w1" using d by (metis hd_append2)
    with ht w1 \<open>w1 \<noteq> []\<close> show False by (metis hd_in_set)
  qed
  with d tt a have "hd ?t = hd (trim s)" by (metis append_Nil hd_append2)
  with ht l show ?thesis by simp
qed













lemmas protected_eval = match_protected_def match_fence_def match_table_def table_lines_def
  pipe_lines.simps pipe_line_def startsWith_def is_line_terminator_def

lemmas bullet_eval = match_bullet_def white_space_plus_def is_white_space_def is_line_terminator_def
  is_decimal_digit_def

lemmas format_eval = formatAssistantContent_def format_part_def enumerate_eq_zip
  replace_line_feeds_def trim_def startsWith_def




text \<open>
  Claim C1 as stated fails: formatting the output of the formatter for a table changes
  it again.
\<close>

theorem format_not_idempotent:
  "formatAssistantContent (js ''|a\<newline>|b\<newline>'') = js ''|a\<newline>|b''
   \<and> formatAssistantContent (formatAssistantContent (js ''|a\<newline>|b\<newline>''))
       = js ''|a\<newline>\<newline>|b''"
proof -
  have s1: "split_protected True [] (js ''|a\<newline>|b\<newline>'') = [[], js ''|a\<newline>|b\<newline>'', []]"
    by (simp add: js_def protected_eval)
  have "formatAssistantContent (js ''|a\<newline>|b\<newline>'')
      = trim (concat (map format_part (enumerate 0 [[], js ''|a\<newline>|b\<newline>'', []])))"
    by (simp only: formatAssistantContent_def s1 Let_def) (simp add: js_def)
  also have "\<dots> = js ''|a\<newline>|b''"
    by (simp add: format_part_def enumerate_eq_zip js_def trim_def is_white_space_def is_line_terminator_def)
  finally have 1: "formatAssistantContent (js ''|a\<newline>|b\<newline>'') = js ''|a\<newline>|b''" .
  have s2: "split_protected True [] (js ''|a\<newline>|b'') = [js ''|a\<newline>|b'']"
    by (simp add: js_def protected_eval)
  have b: "replace_bullets True (js ''|a\<newline>|b'') = js ''|a\<newline>|b''"
    by (simp add: js_def bullet_eval)
  have t: "trim (js ''|a\<newline>|b'') = js ''|a\<newline>|b''"
    by (simp add: js_def trim_def is_white_space_def is_line_terminator_def)
  have n: "replace_br (replace_line_feeds (replace_line_feed_runs (js ''|a\<newline>|b'')))
      = js ''|a\<newline>\<newline>|b''"
    by (simp add: js_def replace_line_feeds_def startsWith_def)
  have t2: "trim (js ''|a\<newline>\<newline>|b'') = js ''|a\<newline>\<newline>|b''"
    by (simp add: js_def trim_def is_white_space_def is_line_terminator_def)
  have ne: "js ''|a\<newline>|b'' \<noteq> []" by (simp add: js_def)
  have "formatAssistantContent (js ''|a\<newline>|b'')
      = trim (concat (map format_part (enumerate 0 [js ''|a\<newline>|b''])))"
    using ne by (simp only: formatAssistantContent_def s2 Let_def) simp
  also have "\<dots> = js ''|a\<newline>\<newline>|b''"
    using ne by (simp add: format_part_def b t n t2)
  finally show ?thesis using 1 by simp
qed

subsection \<open>The bullet pattern\<close>

lemma white_space_not_marker:
  assumes "is_white_space c"
  shows "c \<noteq> 0x2A" "c \<noteq> 0x2D" "c \<noteq> 0x2E" "\<not> is_decimal_digit c"
proof -
  show "\<not> is_decimal_digit c"
    using assms unfolding is_white_space_def is_line_terminator_def is_decimal_digit_def word_le_nat_alt
    by auto
  show "c \<noteq> 0x2A" "c \<noteq> 0x2D" "c \<noteq> 0x2E"
    using assms unfolding is_white_space_def is_line_terminator_def by auto
qed

lemma digit_not_marker:
  assumes "is_decimal_digit c"
  shows "c \<noteq> 0x2A" "c \<noteq> 0x2D" "c \<noteq> 0x2E"
  using assms unfolding is_decimal_digit_def by auto

lemma bullet_prefix_skip_white_space:
  "\<forall>c\<in>set w. is_white_space c \<Longrightarrow> bullet_prefix Skip (w @ s) = bullet_prefix Skip s"
  by (induction w) simp_all

lemma bullet_prefix_dropWhile: "bullet_prefix Skip (dropWhile is_white_space s) = bullet_prefix Skip s"
  by (induction s) simp_all

lemma bullet_prefix_digits:
  "bullet_prefix Digits u =
     (case dropWhile is_decimal_digit u of [] \<Rightarrow> False | d # s3 \<Rightarrow> d = 0x2E \<and> bullet_prefix Marked s3)"
  by (induction u) (auto split: list.splits)

lemma bullet_prefix_marked: "bullet_prefix Marked s \<longleftrightarrow> takeWhile is_white_space s \<noteq> []"
  by (cases s) auto

lemma match_bullet_iff: "match_bullet s \<noteq> None \<longleftrightarrow> bullet_prefix Skip s"
proof -
  let ?s1 = "dropWhile is_white_space s"
  have "match_bullet s \<noteq> None \<longleftrightarrow> bullet_prefix Skip ?s1"
  proof (cases ?s1)
    case Nil
    show ?thesis unfolding match_bullet_def Let_def Nil by simp
  next
    case (Cons c cs)
    then have nws: "\<not> is_white_space c" by (metis hd_dropWhile list.sel(1) list.simps(3))
    show ?thesis
    proof (cases "c = 0x2A \<or> c = 0x2D")
      case True
      then show ?thesis
        using Cons nws by (auto simp: match_bullet_def Let_def white_space_plus_def bullet_prefix_marked)
    next
      case nm: False
      show ?thesis
      proof (cases "is_decimal_digit c")
        case True
        have dw: "dropWhile is_decimal_digit (c # cs) = dropWhile is_decimal_digit cs"
          using True by simp
        have m: "match_bullet s \<noteq> None \<longleftrightarrow>
                   (case dropWhile is_decimal_digit cs of
                      [] \<Rightarrow> False
                    | d # s3 \<Rightarrow> d = 0x2E \<and> takeWhile is_white_space s3 \<noteq> [])"
          unfolding match_bullet_def Let_def Cons dw using nm True
          by (simp add: white_space_plus_def split: list.splits del: dropWhile_eq_Nil_conv)
        have "bullet_prefix Skip (c # cs) = bullet_prefix Digits cs"
          using nws nm True by simp
        then show ?thesis
          unfolding Cons m bullet_prefix_digits[of cs]
          by (simp add: bullet_prefix_marked split: list.splits del: dropWhile_eq_Nil_conv)
      next
        case False
        then show ?thesis using Cons nws nm by (simp add: match_bullet_def Let_def)
      qed
    qed
  qed
  then show ?thesis by (simp add: bullet_prefix_dropWhile)
qed

lemma match_bullet_None: "match_bullet s = None \<longleftrightarrow> \<not> bullet_prefix Skip s"
  using match_bullet_iff[of s] by blast

lemma bullet_glyph_stops: "\<not> bullet_prefix q (0x2022 # s)"
  by (cases q) (simp_all add: is_white_space_def is_line_terminator_def is_decimal_digit_def)

lemma bullet_prefix_replace:
  "bullet_prefix q (replace_bullets b s) \<Longrightarrow> bullet_prefix q s"
proof (induction b s arbitrary: q rule: replace_bullets.induct)
  case (1 line_start)
  then show ?case by simp
next
  case (2 line_start c cs)
  show ?case
  proof (cases "if line_start then match_bullet (c # cs) else None")
    case None
    with "2.prems" have p: "bullet_prefix q (c # replace_bullets (is_line_terminator c) cs)" by simp
    note ih = "2.IH"(1)[OF None]
    show ?thesis
    proof (cases q)
      case Skip
      with p ih[of Skip] ih[of Marked] ih[of Digits] show ?thesis by (auto split: if_splits)
    next
      case Digits
      with p ih[of Marked] ih[of Digits] show ?thesis by (auto split: if_splits)
    next
      case Marked
      with p show ?thesis by simp
    qed
  next
    case (Some a)
    obtain m rest where "a = (m, rest)" by (cases a)
    with Some "2.prems" have "bullet_prefix q (0x2022 # 0x20 # replace_bullets (is_line_terminator (last m)) rest)"
      by simp
    with bullet_glyph_stops show ?thesis by blast
  qed
qed

lemma no_bullet_stable: "no_bullet b s \<Longrightarrow> replace_bullets b s = s"
proof (induction s arbitrary: b)
  case Nil
  then show ?case by simp
next
  case (Cons c cs)
  then have "(if b then match_bullet (c # cs) else None) = None"
    by (auto simp: match_bullet_None)
  with Cons show ?case by simp
qed

lemma no_bullet_replace: "(b' \<longrightarrow> b) \<Longrightarrow> no_bullet b' (replace_bullets b s)"
proof (induction b s arbitrary: b' rule: replace_bullets.induct)
  case (1 line_start)
  then show ?case by simp
next
  case (2 line_start c cs)
  show ?case
  proof (cases "if line_start then match_bullet (c # cs) else None")
    case None
    have r: "replace_bullets line_start (c # cs) = c # replace_bullets (is_line_terminator c) cs"
      using None by simp
    have "\<not> bullet_prefix Skip (c # replace_bullets (is_line_terminator c) cs)" if "b'"
    proof
      assume "bullet_prefix Skip (c # replace_bullets (is_line_terminator c) cs)"
      then have "bullet_prefix Skip (replace_bullets line_start (c # cs))" by (simp only: r)
      then have "bullet_prefix Skip (c # cs)" by (rule bullet_prefix_replace)
      moreover have "match_bullet (c # cs) = None" using None that "2.prems" by (simp split: if_splits)
      ultimately show False by (simp add: match_bullet_None)
    qed
    moreover have "no_bullet (is_line_terminator c) (replace_bullets (is_line_terminator c) cs)"
      by (rule "2.IH"(1)[OF None]) simp
    ultimately show ?thesis by (simp only: r no_bullet.simps) blast
  next
    case (Some a)
    obtain m rest where a: "a = (m, rest)" by (cases a)
    have r: "replace_bullets line_start (c # cs)
               = 0x2022 # 0x20 # replace_bullets (is_line_terminator (last m)) rest"
      using Some a by simp
    have "no_bullet False (replace_bullets (is_line_terminator (last m)) rest)"
      by (rule "2.IH"(2)[OF Some a[symmetric]]) simp
    then show ?thesis
      using bullet_glyph_stops
      by (simp only: r no_bullet.simps) (simp add: is_line_terminator_def)
  qed
qed

lemma no_bullet_weaken: "no_bullet b s \<Longrightarrow> no_bullet False s"
  by (cases s) simp_all

lemma no_bullet_suffix: "no_bullet b (w @ z) \<Longrightarrow> no_bullet False z"
proof (induction w arbitrary: b)
  case Nil
  then show ?case using no_bullet_weaken by simp
next
  case (Cons c w)
  from Cons.prems have "no_bullet (is_line_terminator c) (w @ z)" by simp
  then show ?case by (rule Cons.IH)
qed

lemma no_bullet_True_iff:
  "no_bullet True z \<longleftrightarrow> \<not> bullet_prefix Skip z \<and> no_bullet False z"
  by (cases z) simp_all

lemma no_bullet_drop_white_space:
  assumes "\<forall>c\<in>set w. is_white_space c" "no_bullet True (w @ z)"
  shows "no_bullet True z"
proof -
  have "\<not> bullet_prefix Skip (w @ z)" using assms(2) by (simp add: no_bullet_True_iff)
  then have "\<not> bullet_prefix Skip z" using assms(1) by (simp add: bullet_prefix_skip_white_space)
  moreover have "no_bullet False z" using assms(2) by (rule no_bullet_suffix)
  ultimately show ?thesis by (simp add: no_bullet_True_iff)
qed

lemma bullet_prefix_extend: "bullet_prefix q u \<Longrightarrow> bullet_prefix q (u @ w)"
  by (induction q u rule: bullet_prefix.induct) (auto split: if_splits)

lemma no_bullet_prefix: "no_bullet b (z @ w) \<Longrightarrow> no_bullet b z"
proof (induction z arbitrary: b)
  case Nil
  then show ?case by simp
next
  case (Cons c z)
  then show ?case using bullet_prefix_extend[of Skip "c # z" w] by auto
qed

lemma no_bullet_trim: "no_bullet True s \<Longrightarrow> no_bullet True (trim s)"
proof -
  assume a: "no_bullet True s"
  from trim_decompose[of s] obtain w1 w2 where
    s: "s = w1 @ trim s @ w2" and w1: "\<forall>c\<in>set w1. is_white_space c" by blast
  from a s have "no_bullet True (w1 @ (trim s @ w2))" by simp
  from no_bullet_drop_white_space[OF w1 this] have "no_bullet True (trim s @ w2)" .
  then show ?thesis by (rule no_bullet_prefix)
qed

subsection \<open>The line breaks\<close>

lemma replace_line_feeds_append:
  "replace_line_feeds (a @ b) = replace_line_feeds a @ replace_line_feeds b"
  by (simp add: replace_line_feeds_def)

lemma replace_line_feeds_br: "replace_line_feeds (js ''<br>'') = js ''<br>''"
  by (simp add: replace_line_feeds_def js_def)

lemma replace_br_br: "replace_br (js ''<br>'' @ s) = 0x0A # 0x0A # replace_br s"
  by (simp add: js_def startsWith_def)

lemma replace_br_other: "c \<noteq> 0x3C \<Longrightarrow> replace_br (c # s) = c # replace_br s"
  by (auto simp: js_def startsWith_def)

lemma line_breaks_normalize:
  "0x3C \<notin> set s \<Longrightarrow>
     replace_br (replace_line_feeds (replace_line_feed_runs s)) = normalize_line_feeds s"
proof (induction s rule: replace_line_feed_runs.induct)
  case 1
  then show ?case by (simp add: replace_line_feeds_def)
next
  case (2 c)
  then show ?case
    using replace_br_br[of "[]"] replace_br_other[of c "[]"]
    by (auto simp: replace_line_feeds_def)
next
  case (3 c d cs)
  show ?case
  proof (cases "c = 0x0A \<and> d = 0x0A")
    case True
    have "0x3C \<notin> set (dropWhile (\<lambda>x. x = 0x0A) cs)"
      using "3.prems" by (auto dest: set_dropWhileD)
    from "3.IH"(1)[OF True this] True show ?thesis
      by (simp add: replace_line_feeds_append replace_line_feeds_br replace_br_br)
  next
    case False
    have ih: "replace_br (replace_line_feeds (replace_line_feed_runs (d # cs)))
                = normalize_line_feeds (d # cs)"
      using "3.IH"(2)[OF False] "3.prems" by simp
    have r: "replace_line_feed_runs (c # d # cs) = c # replace_line_feed_runs (d # cs)"
      using False by auto
    show ?thesis
    proof (cases "c = 0x0A")
      case True
      with False have d: "d \<noteq> 0x0A" by simp
      have e: "replace_line_feeds (c # replace_line_feed_runs (d # cs))
              = js ''<br>'' @ replace_line_feeds (replace_line_feed_runs (d # cs))"
        using True by (simp add: replace_line_feeds_def)
      have "replace_br (replace_line_feeds (replace_line_feed_runs (c # d # cs)))
              = replace_br (js ''<br>'' @ replace_line_feeds (replace_line_feed_runs (d # cs)))"
        by (simp only: r e)
      also have "\<dots> = 0x0A # 0x0A # normalize_line_feeds (d # cs)"
        by (simp only: replace_br_br ih)
      also have "\<dots> = normalize_line_feeds (c # d # cs)" using True d by simp
      finally show ?thesis .
    next
      case nl: False
      have e: "replace_line_feeds (c # replace_line_feed_runs (d # cs))
              = c # replace_line_feeds (replace_line_feed_runs (d # cs))"
        using nl by (simp add: replace_line_feeds_def)
      have lt: "c \<noteq> 0x3C" using "3.prems" by auto
      have "replace_br (replace_line_feeds (replace_line_feed_runs (c # d # cs)))
              = replace_br (c # replace_line_feeds (replace_line_feed_runs (d # cs)))"
        by (simp only: r e)
      also have "\<dots> = c # normalize_line_feeds (d # cs)"
        by (simp only: replace_br_other[OF lt] ih)
      also have "\<dots> = normalize_line_feeds (c # d # cs)" using nl by simp
      finally show ?thesis .
    qed
  qed
qed

lemma normalize_starts:
  "s \<noteq> [] \<Longrightarrow> hd s \<noteq> 0x0A \<Longrightarrow> normalize_line_feeds s = hd s # normalize_line_feeds (tl s)"
  by (cases s) simp_all

lemma dropWhile_line_feeds_normalize:
  assumes "r = dropWhile (\<lambda>x. x = 0x0A) cs"
  shows "dropWhile (\<lambda>x. x = 0x0A) (normalize_line_feeds r) = normalize_line_feeds r"
proof (cases r)
  case Nil
  then show ?thesis by simp
next
  case (Cons c r')
  then have "c \<noteq> 0x0A" using assms by (metis (mono_tags, lifting) hd_dropWhile list.sel(1) list.simps(3))
  with Cons show ?thesis by simp
qed

lemma normalize_idempotent:
  "normalize_line_feeds (normalize_line_feeds s) = normalize_line_feeds s"
proof (induction s rule: normalize_line_feeds.induct)
  case 1
  then show ?case by simp
next
  case (2 c cs)
  show ?case
  proof (cases "c = 0x0A")
    case True
    let ?r = "dropWhile (\<lambda>x. x = 0x0A) cs"
    have "normalize_line_feeds (normalize_line_feeds (c # cs))
            = 0x0A # 0x0A # normalize_line_feeds (dropWhile (\<lambda>x. x = 0x0A) (0x0A # normalize_line_feeds ?r))"
      using True by simp
    also have "\<dots> = 0x0A # 0x0A # normalize_line_feeds (normalize_line_feeds ?r)"
      using dropWhile_line_feeds_normalize[OF refl, of cs] by simp
    also have "\<dots> = 0x0A # 0x0A # normalize_line_feeds ?r" using "2.IH"(1)[OF True] by simp
    finally show ?thesis using True by simp
  next
    case False
    with "2.IH"(2) show ?thesis by simp
  qed
qed

lemma bullet_prefix_drop_line_feeds:
  "bullet_prefix Skip (dropWhile (\<lambda>x. x = 0x0A) cs) = bullet_prefix Skip cs"
  by (induction cs) (simp_all add: is_white_space_def is_line_terminator_def)

lemma bullet_prefix_normalize: "bullet_prefix q (normalize_line_feeds s) = bullet_prefix q s"
proof (induction s arbitrary: q rule: normalize_line_feeds.induct)
  case 1
  then show ?case by simp
next
  case (2 c cs)
  show ?case
  proof (cases "c = 0x0A")
    case True
    have ws: "is_white_space 0x0A" "\<not> is_decimal_digit 0x0A"
      by (simp_all add: is_white_space_def is_line_terminator_def is_decimal_digit_def)
    show ?thesis
    proof (cases q)
      case Skip
      then show ?thesis
        using True ws "2.IH"(1)[OF True, of Skip] bullet_prefix_drop_line_feeds[of cs] by simp
    next
      case Digits
      then show ?thesis using True ws by simp
    next
      case Marked
      then show ?thesis using True ws by simp
    qed
  next
    case False
    show ?thesis
    proof (cases q)
      case Skip
      then show ?thesis
        using False "2.IH"(2)[OF False, of Skip] "2.IH"(2)[OF False, of Marked]
          "2.IH"(2)[OF False, of Digits] by simp
    next
      case Digits
      then show ?thesis
        using False "2.IH"(2)[OF False, of Marked] "2.IH"(2)[OF False, of Digits] by simp
    next
      case Marked
      then show ?thesis using False by simp
    qed
  qed
qed

lemma no_bullet_drop_line_feeds: "no_bullet True cs \<Longrightarrow> no_bullet True (dropWhile (\<lambda>x. x = 0x0A) cs)"
  by (induction cs) (auto simp: is_line_terminator_def)

lemma no_bullet_normalize: "no_bullet b s \<Longrightarrow> no_bullet b (normalize_line_feeds s)"
proof (induction s arbitrary: b rule: normalize_line_feeds.induct)
  case 1
  then show ?case by simp
next
  case (2 c cs)
  show ?case
  proof (cases "c = 0x0A")
    case True
    let ?r = "dropWhile (\<lambda>x. x = 0x0A) cs"
    have lt: "is_line_terminator 0x0A" "is_white_space 0x0A"
      by (simp_all add: is_white_space_def is_line_terminator_def)
    from "2.prems" True lt have "no_bullet True cs" by simp
    then have "no_bullet True ?r" by (rule no_bullet_drop_line_feeds)
    then have n: "no_bullet True (normalize_line_feeds ?r)" by (rule "2.IH"(1)[OF True])
    then have "\<not> bullet_prefix Skip (normalize_line_feeds ?r)" by (simp add: no_bullet_True_iff)
    with n True lt show ?thesis by simp
  next
    case False
    have "bullet_prefix Skip (c # normalize_line_feeds cs) = bullet_prefix Skip (c # cs)"
      using bullet_prefix_normalize[of Skip "c # cs"] False by simp
    moreover have "no_bullet (is_line_terminator c) (normalize_line_feeds cs)"
      using "2.prems" by (intro "2.IH"(2)[OF False]) simp
    ultimately show ?thesis using "2.prems" False by (simp del: bullet_prefix.simps)
  qed
qed

lemma last_dropWhile: "dropWhile P xs \<noteq> [] \<Longrightarrow> last (dropWhile P xs) = last xs"
  by (induction xs) (auto split: if_splits)

lemma normalize_last:
  "s \<noteq> [] \<Longrightarrow> last s \<noteq> 0x0A \<Longrightarrow>
     normalize_line_feeds s \<noteq> [] \<and> last (normalize_line_feeds s) = last s"
proof (induction s rule: normalize_line_feeds.induct)
  case 1
  then show ?case by simp
next
  case (2 c cs)
  show ?case
  proof (cases "c = 0x0A")
    case True
    let ?r = "dropWhile (\<lambda>x. x = 0x0A) cs"
    from "2.prems" True have cs: "cs \<noteq> []" "last cs \<noteq> 0x0A" by (auto split: if_splits)
    then have r: "?r \<noteq> []" by (metis (mono_tags, lifting) dropWhile_eq_Nil_conv last_in_set)
    then have "last ?r = last cs" by (rule last_dropWhile)
    with "2.IH"(1)[OF True r] cs have "normalize_line_feeds ?r \<noteq> []"
         "last (normalize_line_feeds ?r) = last cs" by simp_all
    then show ?thesis using True cs by simp
  next
    case False
    show ?thesis
    proof (cases "cs = []")
      case True
      then show ?thesis using False by simp
    next
      case ne: False
      with "2.prems" have "last cs \<noteq> 0x0A" by simp
      from "2.IH"(2)[OF False ne this] ne False show ?thesis by simp
    qed
  qed
qed

lemma trim_id:
  assumes "s \<noteq> []" "\<not> is_white_space (hd s)" "\<not> is_white_space (last s)"
  shows "trim s = s"
proof -
  have "dropWhile is_white_space s = s" using assms(1,2) by (cases s) auto
  moreover have "dropWhile is_white_space (rev s) = rev s"
    using assms(1,3) by (cases "rev s") (auto simp: hd_rev dest!: arg_cong[where f = hd])
  ultimately show ?thesis by (simp add: trim_def)
qed

lemma normalize_trimmed:
  assumes "t \<noteq> []" "\<not> is_white_space (hd t)" "\<not> is_white_space (last t)"
  shows "trim (normalize_line_feeds t) = normalize_line_feeds t \<and> normalize_line_feeds t \<noteq> []"
proof -
  have lf: "is_white_space 0x0A" by (simp add: is_white_space_def is_line_terminator_def)
  have h: "hd t \<noteq> 0x0A" "last t \<noteq> 0x0A" using assms(2,3) lf by auto
  from normalize_last[OF assms(1) h(2)] have n: "normalize_line_feeds t \<noteq> []"
    "last (normalize_line_feeds t) = last t" by simp_all
  have "hd (normalize_line_feeds t) = hd t" using normalize_starts[OF assms(1) h(1)] by simp
  with n assms show ?thesis by (simp add: trim_id)
qed

subsection \<open>Texts without backtick, pipe and \<open><\<close>\<close>

lemma white_space_plus_parts:
  "white_space_plus matched s = Some (m, rest) \<Longrightarrow> matched @ s = m @ rest"
  by (auto simp: white_space_plus_def split: if_splits)

lemma match_bullet_parts: "match_bullet s = Some (m, rest) \<Longrightarrow> s = m @ rest"
proof -
  assume a: "match_bullet s = Some (m, rest)"
  let ?w = "takeWhile is_white_space s" and ?s1 = "dropWhile is_white_space s"
  have s: "s = ?w @ ?s1" by simp
  from a obtain c cs where c: "?s1 = c # cs" by (cases ?s1) (auto simp: match_bullet_def)
  show ?thesis
  proof (cases "c = 0x2A \<or> c = 0x2D")
    case True
    with a c have "white_space_plus (?w @ [c]) cs = Some (m, rest)"
      by (auto simp: match_bullet_def Let_def)
    from white_space_plus_parts[OF this] have "?w @ c # cs = m @ rest" by simp
    with s c show ?thesis by metis
  next
    case False
    let ?ds = "takeWhile is_decimal_digit ?s1" and ?s2 = "dropWhile is_decimal_digit ?s1"
    from a c False obtain d s3 where d: "?s2 = d # s3"
      "white_space_plus (?w @ ?ds @ [d]) s3 = Some (m, rest)"
      by (auto simp: match_bullet_def Let_def split: if_splits list.splits)
    from white_space_plus_parts[OF d(2)] have "?w @ ?ds @ d # s3 = m @ rest" by simp
    moreover have "?s1 = ?ds @ ?s2" by simp
    ultimately show ?thesis using s d(1) by metis
  qed
qed

lemma set_replace_bullets: "set (replace_bullets b s) \<subseteq> set s \<union> {0x2022, 0x20}"
proof (induction b s rule: replace_bullets.induct)
  case (1 line_start)
  then show ?case by simp
next
  case (2 line_start c cs)
  show ?case
  proof (cases "if line_start then match_bullet (c # cs) else None")
    case None
    with "2.IH"(1)[OF None] show ?thesis by auto
  next
    case (Some a)
    obtain m rest where a: "a = (m, rest)" by (cases a)
    from Some a have "match_bullet (c # cs) = Some (m, rest)" by (simp split: if_splits)
    from match_bullet_parts[OF this] have "set rest \<subseteq> set (c # cs)" by (metis set_append sup_ge2)
    with "2.IH"(2)[OF Some a[symmetric]] Some a show ?thesis by auto
  qed
qed

lemma set_trim: "set (trim s) \<subseteq> set s"
  using trim_decompose[of s] by (metis set_append sup_ge1 sup_ge2 subset_trans)

lemma set_normalize: "set (normalize_line_feeds s) \<subseteq> set s \<union> {0x0A}"
  by (induction s rule: normalize_line_feeds.induct) (auto dest: set_dropWhileD)

lemma no_pipe_no_table: "0x7C \<notin> set s \<Longrightarrow> table_lines s = None"
  by (cases s) (auto simp: table_lines_def pipe_lines.simps pipe_line_def)

lemma plain_not_protected:
  assumes "0x60 \<notin> set s" "0x7C \<notin> set s"
  shows "match_protected b s = None"
proof -
  have "match_fence s = None"
    using assms(1) by (cases s) (auto simp: match_fence_def startsWith_def js_def)
  moreover have "match_table b s = None"
    using assms(2) no_pipe_no_table[of s] no_pipe_no_table[of "tl s"]
    by (cases s) (auto simp: match_table_def)
  ultimately show ?thesis by (simp add: match_protected_def)
qed

lemma split_protected_plain:
  "0x60 \<notin> set s \<Longrightarrow> 0x7C \<notin> set s \<Longrightarrow> split_protected b piece s = [piece @ s]"
proof (induction s arbitrary: b piece)
  case Nil
  then show ?case by simp
next
  case (Cons c cs)
  have "match_protected b (c # cs) = None" using Cons.prems by (rule plain_not_protected)
  moreover have "split_protected False (piece @ [c]) cs = [(piece @ [c]) @ cs]"
    using Cons.prems by (intro Cons.IH) auto
  ultimately show ?case by simp
qed

lemma format_plain:
  assumes "0x60 \<notin> set s" "0x7C \<notin> set s" "s \<noteq> []"
  shows "formatAssistantContent s = trim (format_part (0, s))"
  using assms by (simp add: formatAssistantContent_def split_protected_plain)

text \<open>The formatter on a plain text, in terms of the normalised line feeds.\<close>

lemma format_plain_result:
  assumes "0x60 \<notin> set s" "0x7C \<notin> set s" "0x3C \<notin> set s"
    and "t = trim (replace_bullets True s)"
  shows "formatAssistantContent s = normalize_line_feeds t"
proof (cases "s = []")
  case True
  with assms(4) show ?thesis by (simp add: formatAssistantContent_def trim_def)
next
  case False
  have lt: "0x3C \<notin> set t"
    using assms(3,4) set_trim[of "replace_bullets True s"] set_replace_bullets[of True s] by auto
  show ?thesis
  proof (cases "t = []")
    case True
    have e: "trim [] = []" by (simp add: trim_def)
    have "format_part (0, s) = []"
      using False True assms(4) by (simp add: format_part_def Let_def)
    then show ?thesis
      using format_plain[OF assms(1,2) False] True e by simp
  next
    case ne: False
    have "format_part (0, s) = normalize_line_feeds t"
      using False ne assms(4) line_breaks_normalize[OF lt] by (simp add: format_part_def Let_def)
    moreover have "trim (normalize_line_feeds t) = normalize_line_feeds t"
      using normalize_trimmed[OF ne] trim_ends[of "replace_bullets True s"] ne assms(4) by simp
    ultimately show ?thesis using format_plain[OF assms(1,2) False] by simp
  qed
qed

text \<open>
  Claim C1, as the code has it: the formatter is idempotent on every text that contains
  no backtick, no pipe and no \<open><\<close>, hence no fenced code block, no table and no
  literal \<open><br>\<close>. There the list markers at the line starts become bullet glyphs,
  the text is trimmed and every run of line feeds becomes two line feeds, and
  formatting the result again changes nothing.
\<close>

theorem format_idempotent_on_plain_text:
  assumes "0x60 \<notin> set txt" and "0x7C \<notin> set txt" and "0x3C \<notin> set txt"
  shows "formatAssistantContent (formatAssistantContent txt) = formatAssistantContent txt"
proof -
  let ?t = "trim (replace_bullets True txt)"
  let ?y = "normalize_line_feeds ?t"
  have y: "formatAssistantContent txt = ?y" using format_plain_result[OF assms refl] .
  have sub: "set ?y \<subseteq> set txt \<union> {0x2022, 0x20, 0x0A}"
    using set_normalize[of "trim (replace_bullets True txt)"]
      set_trim[of "replace_bullets True txt"] set_replace_bullets[of True "txt"]
    by blast
  have c: "0x60 \<notin> set ?y" "0x7C \<notin> set ?y" "0x3C \<notin> set ?y"
    using sub assms by auto
  have nb: "no_bullet True ?y"
    by (intro no_bullet_normalize no_bullet_trim no_bullet_replace) simp
  have rb: "replace_bullets True ?y = ?y" using nb by (rule no_bullet_stable)
  have ty: "trim ?y = ?y"
  proof (cases "?t = []")
    case True
    have "trim [] = []" by (simp add: trim_def)
    then show ?thesis by (simp add: True)
  next
    case False
    from normalize_trimmed[OF False] trim_ends[OF False] show ?thesis by simp
  qed
  have "formatAssistantContent ?y = normalize_line_feeds (trim (replace_bullets True ?y))"
    using format_plain_result[OF c refl] .
  also have "\<dots> = normalize_line_feeds ?y" by (simp only: rb ty)
  also have "\<dots> = ?y" by (rule normalize_idempotent)
  finally show ?thesis by (simp only: y)
qed

text \<open>Claim C1 on a plain text with three list items.\<close>

theorem format_idempotent_on_plain_text_witness:
  "formatAssistantContent (js '' * one\<newline>\<newline>\<newline>- two\<newline>3. three '')
     = 0x2022 # js '' one\<newline>\<newline>'' @ 0x2022 # js '' two\<newline>\<newline>'' @ 0x2022 # js '' three''
   \<and> formatAssistantContent
         (0x2022 # js '' one\<newline>\<newline>'' @ 0x2022 # js '' two\<newline>\<newline>'' @ 0x2022 # js '' three'')
     = 0x2022 # js '' one\<newline>\<newline>'' @ 0x2022 # js '' two\<newline>\<newline>'' @ 0x2022 # js '' three''"
proof -
  let ?txt = "js '' * one\<newline>\<newline>\<newline>- two\<newline>3. three ''"
  let ?bullets = "0x2022 # js '' one\<newline>'' @ 0x2022 # js '' two\<newline>'' @ 0x2022 # js '' three ''"
  let ?trimmed = "0x2022 # js '' one\<newline>'' @ 0x2022 # js '' two\<newline>'' @ 0x2022 # js '' three''"
  let ?out = "0x2022 # js '' one\<newline>\<newline>'' @ 0x2022 # js '' two\<newline>\<newline>'' @ 0x2022 # js '' three''"
  have h: "0x60 \<notin> set ?txt" "0x7C \<notin> set ?txt" "0x3C \<notin> set ?txt"
    by (simp_all add: js_def)
  have b: "replace_bullets True ?txt = ?bullets"
    by (simp add: js_def bullet_eval)
  have t: "trim ?bullets = ?trimmed"
    by (simp add: js_def trim_def is_white_space_def is_line_terminator_def)
  have n: "normalize_line_feeds ?trimmed = ?out"
    by (simp add: js_def)
  have 1: "formatAssistantContent ?txt = ?out"
    using format_plain_result[OF h refl] by (simp only: b t n)
  from format_idempotent_on_plain_text[OF h] have "formatAssistantContent ?out = ?out"
    by (simp only: 1)
  with 1 show ?thesis by (rule conjI)
qed


end
